theory Spec2Isabelle
  imports Main "HOL-Library.Word"
begin

section \<open>The allocator of mm.c as a shallow embedding\<close>

text \<open>
  The model follows \<^verbatim>\<open>src/src/mm.c\<close> on an LP64 machine: \<^verbatim>\<open>long int\<close>,
  \<^verbatim>\<open>size_t\<close> and every pointer are 64 bits wide, so \<^verbatim>\<open>sizeof(BlockInfo)\<close> and
  \<^verbatim>\<open>sizeof(FreeBlockInfo)\<close> are both 16. All of them are \<open>64 word\<close>: \<open>+\<close>, \<open>-\<close> and
  \<open>*\<close> wrap around, \<open>\<le>\<close> and \<open><\<close> compare unsigned (pointers, \<^verbatim>\<open>size_t\<close>), \<open>\<le>s\<close> and
  \<open><s\<close> compare signed (\<^verbatim>\<open>long int\<close>).

  Memory is a store from byte addresses to the 8-byte field that starts there. A
  \<^verbatim>\<open>Block\<close> at address \<open>b\<close> has \<^verbatim>\<open>info.size\<close> at \<open>b\<close>, \<^verbatim>\<open>info.prev\<close> at \<open>b + 8\<close>,
  \<^verbatim>\<open>freeNode.nextFree\<close> at \<open>b + 16\<close> and \<^verbatim>\<open>freeNode.prevFree\<close> at \<open>b + 24\<close>; the free
  node lies in the first 16 bytes of the payload, as in the C struct. Every block address
  the allocator forms is the arena base plus a multiple of 16, so two fields never overlap
  partially.
\<close>

type_synonym addr = "64 word"

record mm_state =
  free_list_head :: addr
  malloc_list_tail :: addr
  heap_size :: "64 word"
  mem :: "addr \<Rightarrow> 64 word"
  mem_start :: addr
  mem_brk :: nat
  mem_max :: nat

text \<open>
  \<open>free_list_head\<close>, \<open>malloc_list_tail\<close> and \<open>heap_size\<close> are the three globals of mm.c.
  \<open>mem_start\<close>, \<open>mem_brk\<close> and \<open>mem_max\<close> stand for the arena library (memlib), which is
  not part of the repository: the base address that \<^verbatim>\<open>mem_heap_lo()\<close> returns, the number
  of bytes granted so far and the number of bytes the arena can hold.
\<close>

datatype error = Exit_sbrk_failed

definition NULL :: addr where
  "NULL = 0"

definition WORD_SIZE :: "64 word" where
  "WORD_SIZE = 8"

definition ALIGNMENT :: "64 word" where
  "ALIGNMENT = 16"

definition sizeof_BlockInfo :: "64 word" where
  "sizeof_BlockInfo = 16"

subsection \<open>Fields of a block\<close>

definition info_size :: "mm_state \<Rightarrow> addr \<Rightarrow> 64 word" where
  "info_size s b = mem s b"

definition info_prev :: "mm_state \<Rightarrow> addr \<Rightarrow> addr" where
  "info_prev s b = mem s (b + 8)"

definition nextFree :: "mm_state \<Rightarrow> addr \<Rightarrow> addr" where
  "nextFree s b = mem s (b + 16)"

definition prevFree :: "mm_state \<Rightarrow> addr \<Rightarrow> addr" where
  "prevFree s b = mem s (b + 24)"

definition set_size :: "mm_state \<Rightarrow> addr \<Rightarrow> 64 word \<Rightarrow> mm_state" where
  "set_size s b v = s\<lparr>mem := (mem s)(b := v)\<rparr>"

definition set_prev :: "mm_state \<Rightarrow> addr \<Rightarrow> addr \<Rightarrow> mm_state" where
  "set_prev s b v = s\<lparr>mem := (mem s)(b + 8 := v)\<rparr>"

definition set_nextFree :: "mm_state \<Rightarrow> addr \<Rightarrow> addr \<Rightarrow> mm_state" where
  "set_nextFree s b v = s\<lparr>mem := (mem s)(b + 16 := v)\<rparr>"

definition set_prevFree :: "mm_state \<Rightarrow> addr \<Rightarrow> addr \<Rightarrow> mm_state" where
  "set_prevFree s b v = s\<lparr>mem := (mem s)(b + 24 := v)\<rparr>"

subsection \<open>The arena primitive\<close>

text \<open>
  Modelled from the spec: \<^verbatim>\<open>mem_sbrk\<close> of memlib, which is not under src/. The spec's
  \<^verbatim>\<open>growArena(byteCount)\<close> appends exactly \<^verbatim>\<open>byteCount\<close> bytes to the arena and fails
  only when the arena cannot grow further. \<open>None\<close> is the failure (the C function returns
  \<^verbatim>\<open>(void* )-1\<close>); the pointer it returns on success is not used by mm.c.
\<close>

definition mem_sbrk :: "mm_state \<Rightarrow> 64 word \<Rightarrow> mm_state option" where
  "mem_sbrk s incr =
     (if mem_brk s + unat incr \<le> mem_max s
      then Some (s\<lparr>mem_brk := mem_brk s + unat incr\<rparr>)
      else None)"

text \<open>Modelled from the spec: \<^verbatim>\<open>mem_heap_lo\<close> of memlib, the base address of the arena.\<close>

definition mem_heap_lo :: "mm_state \<Rightarrow> addr" where
  "mem_heap_lo s = mem_start s"

subsection \<open>Provided functions\<close>

definition requestMoreSpace :: "mm_state \<Rightarrow> 64 word \<Rightarrow> error + (addr \<times> mm_state)" where
  "requestMoreSpace s reqSize =
     (let ret = mem_heap_lo s + heap_size s;
          s1 = s\<lparr>heap_size := heap_size s + reqSize\<rparr>
      in case mem_sbrk s1 reqSize of
           None \<Rightarrow> Inl Exit_sbrk_failed
         | Some s2 \<Rightarrow> Inr (ret, s2))"

definition mm_init :: "mm_state \<Rightarrow> int \<times> mm_state" where
  "mm_init s = (0, s\<lparr>free_list_head := NULL, malloc_list_tail := NULL, heap_size := 0\<rparr>)"

definition first_block :: "mm_state \<Rightarrow> addr" where
  "first_block s = (if heap_size s = 0 then NULL else mem_heap_lo s)"

definition next_block :: "mm_state \<Rightarrow> addr \<Rightarrow> addr" where
  "next_block s block =
     (let distance = (if 0 <s info_size s block then info_size s block
                      else - info_size s block);
          end = mem_heap_lo s + heap_size s;
          next = block + (sizeof_BlockInfo + distance)
      in if end \<le> next then NULL else next)"

subsection \<open>Free list\<close>

partial_function (option) searchFreeList_loop ::
  "mm_state \<Rightarrow> addr \<Rightarrow> 64 word \<Rightarrow> addr option" where
  "searchFreeList_loop s ptrFreeBlock checkSize =
     (if ptrFreeBlock \<noteq> NULL
      then (if info_size s ptrFreeBlock \<le>s checkSize then Some ptrFreeBlock
            else searchFreeList_loop s (nextFree s ptrFreeBlock) checkSize)
      else Some NULL)"

definition searchFreeList :: "mm_state \<Rightarrow> 64 word \<Rightarrow> addr option" where
  "searchFreeList s reqSize =
     (let checkSize = - reqSize in
      if malloc_list_tail s \<noteq> NULL \<and> info_size s (malloc_list_tail s) \<le>s checkSize
      then Some (malloc_list_tail s)
      else searchFreeList_loop s (free_list_head s) checkSize)"

definition insertFreeBlock :: "mm_state \<Rightarrow> addr \<Rightarrow> mm_state" where
  "insertFreeBlock s freeBlock =
     (if freeBlock = NULL then s
      else
        let s1 = set_prevFree s freeBlock NULL;
            s2 = (if free_list_head s1 \<noteq> NULL
                  then set_prevFree (set_nextFree s1 freeBlock (free_list_head s1))
                         (free_list_head s1) freeBlock
                  else set_nextFree s1 freeBlock NULL)
        in s2\<lparr>free_list_head := freeBlock\<rparr>)"

definition removeFreeBlock :: "mm_state \<Rightarrow> addr \<Rightarrow> mm_state" where
  "removeFreeBlock s freeBlock =
     (if freeBlock = NULL then s
      else if free_list_head s = NULL then s
      else
        let prev = prevFree s freeBlock;
            next = nextFree s freeBlock
        in if prev \<noteq> NULL \<and> next \<noteq> NULL
           then set_prevFree (set_nextFree s prev next) next prev
           else if prev = NULL \<and> next \<noteq> NULL
           then set_prevFree (s\<lparr>free_list_head := next\<rparr>) next NULL
           else if prev \<noteq> NULL \<and> next = NULL
           then set_nextFree s prev NULL
           else s\<lparr>free_list_head := NULL\<rparr>)"

subsection \<open>Allocation\<close>

text \<open>
  \<^verbatim>\<open>reqSize\<close> is a \<^verbatim>\<open>long int\<close>, but \<^verbatim>\<open>ALIGNMENT\<close> and \<^verbatim>\<open>sizeof(BlockInfo)\<close> are
  \<^verbatim>\<open>size_t\<close>: the rounding of line 165 and the comparison of line 181 are computed
  unsigned, and the results stored back into a \<^verbatim>\<open>long int\<close> keep their 64 bits.
\<close>

definition round_request :: "64 word \<Rightarrow> 64 word" where
  "round_request sz = ALIGNMENT * ((sz + ALIGNMENT - 1) div ALIGNMENT)"

definition malloc_extend ::
  "mm_state \<Rightarrow> 64 word \<Rightarrow> error + (addr \<times> mm_state)" where
  "malloc_extend s reqSize =
     (case requestMoreSpace s (sizeof_BlockInfo + reqSize) of
        Inl e \<Rightarrow> Inl e
      | Inr (ptrFreeBlock, s1) \<Rightarrow>
          if ptrFreeBlock = NULL then Inr (NULL, s1)
          else
            let s2 = set_size s1 ptrFreeBlock reqSize;
                s3 = set_prev s2 ptrFreeBlock (malloc_list_tail s2);
                s4 = s3\<lparr>malloc_list_tail := ptrFreeBlock\<rparr>
            in Inr (ptrFreeBlock + sizeof_BlockInfo, s4))"

definition malloc_split :: "mm_state \<Rightarrow> addr \<Rightarrow> 64 word \<Rightarrow> addr \<times> mm_state" where
  "malloc_split s ptrFreeBlock reqSize =
     (let nextBlock = next_block s ptrFreeBlock;
          splitBlock = ptrFreeBlock + (reqSize + sizeof_BlockInfo);
          s1 = removeFreeBlock s ptrFreeBlock;
          s2 = set_size s1 splitBlock (info_size s1 ptrFreeBlock + reqSize + sizeof_BlockInfo);
          s3 = set_size s2 ptrFreeBlock reqSize;
          s4 = set_prev s3 splitBlock ptrFreeBlock;
          s5 = (if nextBlock \<noteq> NULL then set_prev s4 nextBlock splitBlock
                else s4\<lparr>malloc_list_tail := splitBlock\<rparr>);
          s6 = insertFreeBlock s5 splitBlock
      in (ptrFreeBlock + sizeof_BlockInfo, s6))"

definition malloc_exact :: "mm_state \<Rightarrow> addr \<Rightarrow> addr \<times> mm_state" where
  "malloc_exact s ptrFreeBlock =
     (let s1 = set_size s ptrFreeBlock (- info_size s ptrFreeBlock);
          s2 = removeFreeBlock s1 ptrFreeBlock
      in (ptrFreeBlock + sizeof_BlockInfo, s2))"

text \<open>
  \<open>mm_malloc\<close>: \<open>None\<close> when the scan of the free list does not return, \<open>Some (Inl e)\<close>
  when the process exits in \<^verbatim>\<open>requestMoreSpace\<close>, \<open>Some (Inr (p, s'))\<close> when the call
  returns the pointer \<open>p\<close> in the state \<open>s'\<close>.
\<close>

definition mm_malloc :: "mm_state \<Rightarrow> 64 word \<Rightarrow> (error + (addr \<times> mm_state)) option" where
  "mm_malloc s sz =
     (if sz = 0 then Some (Inr (NULL, s))
      else
        let reqSize = round_request sz in
        case searchFreeList s reqSize of
          None \<Rightarrow> None
        | Some ptrFreeBlock \<Rightarrow>
            if ptrFreeBlock = NULL then Some (malloc_extend s reqSize)
            else if reqSize + sizeof_BlockInfo < - info_size s ptrFreeBlock
            then Some (Inr (malloc_split s ptrFreeBlock reqSize))
            else Some (Inr (malloc_exact s ptrFreeBlock)))"

subsection \<open>Deallocation\<close>

text \<open>
  \<open>coalesce_prev\<close> is the body of \<^verbatim>\<open>if (previousBlock && previousBlock->info.size < 0)\<close>
  (lines 218 to 223), \<open>coalesce_next\<close> the body of
  \<^verbatim>\<open>if (nextBlock && nextBlock->info.size < 0)\<close> (lines 228 to 234). In \<open>coalesce\<close>,
  \<open>blockInfo1\<close> is the value of the C variable \<^verbatim>\<open>blockInfo\<close> after line 220.
\<close>

definition coalesce_prev :: "mm_state \<Rightarrow> addr \<Rightarrow> addr \<Rightarrow> addr \<Rightarrow> mm_state" where
  "coalesce_prev s blockInfo previousBlock nextBlock =
     (let s1 = removeFreeBlock s previousBlock;
          s2 = set_size s1 previousBlock
                 ((info_size s1 previousBlock + info_size s1 blockInfo) - sizeof_BlockInfo)
      in if nextBlock \<noteq> NULL then set_prev s2 nextBlock previousBlock
         else s2\<lparr>malloc_list_tail := previousBlock\<rparr>)"

definition coalesce_next :: "mm_state \<Rightarrow> addr \<Rightarrow> addr \<Rightarrow> mm_state" where
  "coalesce_next s blockInfo nextBlock =
     (let s1 = removeFreeBlock s nextBlock;
          s2 = set_size s1 blockInfo
                 ((info_size s1 blockInfo + info_size s1 nextBlock) - sizeof_BlockInfo);
          nextNext = next_block s2 nextBlock
      in if nextNext \<noteq> NULL then set_prev s2 nextNext blockInfo
         else s2\<lparr>malloc_list_tail := blockInfo\<rparr>)"

definition coalesce :: "mm_state \<Rightarrow> addr \<Rightarrow> mm_state" where
  "coalesce s blockInfo =
     (if blockInfo = NULL \<or> 0 \<le>s info_size s blockInfo then s
      else
        let nextBlock = next_block s blockInfo;
            previousBlock = info_prev s blockInfo
        in if nextBlock = NULL \<and> previousBlock = NULL then insertFreeBlock s blockInfo
           else
             let prev_is_free = (previousBlock \<noteq> NULL \<and> info_size s previousBlock <s 0);
                 s1 = (if prev_is_free
                       then coalesce_prev s blockInfo previousBlock nextBlock else s);
                 blockInfo1 = (if prev_is_free then previousBlock else blockInfo);
                 s2 = (if nextBlock \<noteq> NULL \<and> info_size s1 nextBlock <s 0
                       then coalesce_next s1 blockInfo1 nextBlock else s1)
             in insertFreeBlock s2 blockInfo1)"

definition mm_free :: "mm_state \<Rightarrow> addr \<Rightarrow> mm_state" where
  "mm_free s ptr =
     (if ptr = NULL then s
      else
        let blockInfo = ptr - sizeof_BlockInfo;
            s1 = set_size s blockInfo (- info_size s blockInfo)
        in coalesce s1 blockInfo)"

subsection \<open>The traversals of the consistency check\<close>

text \<open>
  \<^verbatim>\<open>check_heap\<close> and \<^verbatim>\<open>examine_heap\<close> walk the block chain from \<^verbatim>\<open>mem_heap_lo()\<close> with
  \<^verbatim>\<open>next_block\<close> while the current block is not null and below the end of the heap, and
  walk the free list from \<^verbatim>\<open>free_list_head\<close> along \<^verbatim>\<open>nextFree\<close> until null. The two
  functions below return the blocks these loops visit; \<open>None\<close> means that the loop does
  not end.
\<close>

partial_function (option) chain_from :: "mm_state \<Rightarrow> addr \<Rightarrow> addr list option" where
  "chain_from s cur =
     (if cur \<noteq> NULL \<and> cur < mem_heap_lo s + heap_size s
      then Option.bind (chain_from s (next_block s cur)) (\<lambda>rest. Some (cur # rest))
      else Some [])"

partial_function (option) free_list_from :: "mm_state \<Rightarrow> addr \<Rightarrow> addr list option" where
  "free_list_from s cur =
     (if cur \<noteq> NULL
      then Option.bind (free_list_from s (nextFree s cur)) (\<lambda>rest. Some (cur # rest))
      else Some [])"

text \<open>
  \<^verbatim>\<open>check_heap\<close> itself: the messages it prints, in order. The first loop checks the
  \<^verbatim>\<open>prev\<close> link of every block of the chain and counts the blocks whose size is not
  positive; the second loop walks the free list and complains when it meets the same
  block twice in a row or when the list has more blocks than the first loop counted.
\<close>

datatype check_message =
  Previous_link_not_correct | Free_list_is_circular | Free_list_has_more_items

partial_function (option) check_chain ::
  "mm_state \<Rightarrow> addr \<Rightarrow> addr \<Rightarrow> 64 word \<Rightarrow> check_message list
   \<Rightarrow> (64 word \<times> check_message list) option" where
  "check_chain s cur lastb free_count msgs =
     (if cur \<noteq> NULL \<and> cur < mem_heap_lo s + heap_size s
      then check_chain s (next_block s cur) cur
             (if info_size s cur \<le>s 0 then free_count + 1 else free_count)
             (if info_prev s cur \<noteq> lastb then msgs @ [Previous_link_not_correct] else msgs)
      else Some (free_count, msgs))"

partial_function (option) check_free ::
  "mm_state \<Rightarrow> addr \<Rightarrow> addr \<Rightarrow> 64 word \<Rightarrow> check_message list
   \<Rightarrow> check_message list option" where
  "check_free s cur lastb free_count msgs =
     (if cur \<noteq> NULL
      then check_free s (nextFree s cur) cur (free_count - 1)
             ((if cur = lastb then msgs @ [Free_list_is_circular] else msgs)
              @ (if free_count = 0 then [Free_list_has_more_items] else []))
      else Some msgs)"

definition check_heap :: "mm_state \<Rightarrow> check_message list option" where
  "check_heap s =
     Option.bind (check_chain s (mem_heap_lo s) NULL 0 [])
       (\<lambda>(free_count, msgs). check_free s (free_list_head s) NULL free_count msgs)"

definition block_chain :: "mm_state \<Rightarrow> addr list option" where
  "block_chain s = chain_from s (mem_heap_lo s)"

definition free_list :: "mm_state \<Rightarrow> addr list option" where
  "free_list s = free_list_from s (free_list_head s)"

declare searchFreeList_loop.simps [code]
declare chain_from.simps [code]
declare free_list_from.simps [code]
declare check_chain.simps [code]
declare check_free.simps [code]

subsection \<open>Clients\<close>

text \<open>
  A client calls \<open>mm_init\<close>, \<open>mm_malloc\<close> and \<open>mm_free\<close>. It frees only the null pointer or
  a pointer that an earlier \<open>mm_malloc\<close> returned and that it has not freed since (the
  lease discipline of the spec); \<open>mm_init\<close> ends all leases. \<open>client_step\<close> keeps the
  list of live pointers beside the allocator state and is \<open>None\<close> when the client breaks
  the discipline, when the process exits, or when the call does not return.
\<close>

datatype call = Init | Malloc "64 word" | Free addr

fun client_step :: "mm_state \<times> addr list \<Rightarrow> call \<Rightarrow> (mm_state \<times> addr list) option" where
  "client_step (s, live) Init = Some (snd (mm_init s), [])"
| "client_step (s, live) (Malloc n) =
     (case mm_malloc s n of
        Some (Inr (p, s')) \<Rightarrow> Some (s', if p = NULL then live else p # live)
      | _ \<Rightarrow> None)"
| "client_step (s, live) (Free p) =
     (if p = NULL then Some (mm_free s p, live)
      else if p \<in> set live then Some (mm_free s p, remove1 p live)
      else None)"

fun client_run :: "mm_state \<times> addr list \<Rightarrow> call list \<Rightarrow> (mm_state \<times> addr list) option" where
  "client_run c [] = Some c"
| "client_run c (x # xs) =
     (case client_step c x of None \<Rightarrow> None | Some c' \<Rightarrow> client_run c' xs)"

text \<open>
  A concrete arena for the scenarios: base address 4096, room for \<open>2 ^ 20\<close> bytes, nothing
  granted yet, memory all zero.
\<close>

definition arena :: mm_state where
  "arena = \<lparr>free_list_head = 0, malloc_list_tail = 0, heap_size = 0, mem = (\<lambda>_. 0),
            mem_start = 4096, mem_brk = 0, mem_max = 1048576\<rparr>"

text \<open>What a scenario leaves behind: the state and the live pointers after the calls.\<close>

definition final_state :: "call list \<Rightarrow> mm_state option" where
  "final_state calls = map_option fst (client_run (arena, []) calls)"

definition final_live :: "call list \<Rightarrow> addr list option" where
  "final_live calls = map_option snd (client_run (arena, []) calls)"

definition final_heap_size :: "call list \<Rightarrow> 64 word option" where
  "final_heap_size calls = map_option heap_size (final_state calls)"

definition final_chain :: "call list \<Rightarrow> (addr \<times> int) list option" where
  "final_chain calls =
     Option.bind (final_state calls)
       (\<lambda>s. map_option (map (\<lambda>b. (b, sint (info_size s b)))) (block_chain s))"

definition final_free_list :: "call list \<Rightarrow> addr list option" where
  "final_free_list calls = Option.bind (final_state calls) free_list"

text \<open>Scenario B of the spec, up to the two frees.\<close>

definition scenario_B :: "call list" where
  "scenario_B = [Init, Malloc 64, Malloc 64, Free 4112, Free 4192]"

definition final_search :: "call list \<Rightarrow> 64 word \<Rightarrow> addr option" where
  "final_search calls reqSize =
     Option.bind (final_state calls) (\<lambda>s. searchFreeList s reqSize)"

text \<open>The state after \<open>mm_init\<close> and one \<open>mm_malloc\<close> of 16 bytes in \<open>arena\<close>.\<close>

definition one_block :: mm_state where
  "one_block = \<lparr>free_list_head = 0, malloc_list_tail = 4096, heap_size = 32,
                mem = (\<lambda>_. 0)(4096 := 16), mem_start = 4096, mem_brk = 32,
                mem_max = 1048576\<rparr>"

text \<open>
  Requests near the top of \<^verbatim>\<open>size_t\<close>: \<open>2 ^ 64 - 16\<close>, a multiple of 16, and
  \<open>2 ^ 64 - 1\<close>, the largest value of the type.
\<close>

definition huge_aligned :: "64 word" where
  "huge_aligned = 18446744073709551600"

definition SIZE_MAX :: "64 word" where
  "SIZE_MAX = 18446744073709551615"

definition overlap_trace :: "call list" where
  "overlap_trace =
     [Init, Malloc 16, Malloc 16, Free 4144, Malloc huge_aligned, Malloc 16,
      Free 4112, Free 4144]"

definition stale_trace :: "call list" where
  "stale_trace = [Init, Malloc 16, Free 4112, Malloc huge_aligned, Free 4112]"

section \<open>Well-formed heaps\<close>

text \<open>The heap is described by two lists: \<open>bs\<close>, the blocks in address order, each with
  its address and its stored size (negative for a free block), and \<open>fl\<close>, the addresses of
  the members of the free list from its head. Addresses are natural numbers and sizes are
  integers; \<open>ptr\<close> and \<open>sz\<close> give the machine words that the program stores for them.\<close>

definition ptr :: "nat \<Rightarrow> addr" where "ptr k = of_nat k"

definition sz :: "int \<Rightarrow> 64 word" where "sz z = of_int z"

text \<open>The blocks tile the heap from \<open>a\<close> to \<open>e\<close>: each one starts where the one before ends,
  16 bytes of header and the payload further; stored sizes are non-zero multiples of 16.\<close>

fun layout :: "nat \<Rightarrow> (nat \<times> int) list \<Rightarrow> nat \<Rightarrow> bool" where
  "layout a [] e \<longleftrightarrow> a = e"
| "layout a ((b, z) # bs) e \<longleftrightarrow> b = a \<and> z \<noteq> 0 \<and> 16 dvd z \<and> layout (a + 16 + nat \<bar>z\<bar>) bs e"

text \<open>The headers in memory hold the stored sizes, and \<open>prev\<close> of each block is the block
  before it in address order (\<open>NULL\<close> for the first).\<close>

fun headers :: "mm_state \<Rightarrow> nat \<Rightarrow> (nat \<times> int) list \<Rightarrow> bool" where
  "headers s p [] \<longleftrightarrow> True"
| "headers s p ((b, z) # bs) \<longleftrightarrow>
     info_size s (ptr b) = sz z \<and> info_prev s (ptr b) = ptr p \<and> headers s b bs"

text \<open>A segment of the doubly linked free list: from \<open>h\<close> the \<open>nextFree\<close> fields lead through
  \<open>fs\<close> to \<open>e\<close>, and \<open>prevFree\<close> of each member is the member before it.\<close>

fun lseg :: "mm_state \<Rightarrow> nat \<Rightarrow> nat list \<Rightarrow> addr \<Rightarrow> addr \<Rightarrow> bool" where
  "lseg s p [] h e \<longleftrightarrow> h = e"
| "lseg s p (f # fs) h e \<longleftrightarrow>
     h = ptr f \<and> prevFree s h = ptr p \<and> lseg s f fs (nextFree s h) e"

text \<open>The arena starts at a non-null 16-byte aligned address, ends below \<open>2 ^ 63\<close>, and the
  heap lies within the part of it that has been handed out.\<close>

definition arena_ok :: "mm_state \<Rightarrow> bool" where
  "arena_ok s \<longleftrightarrow>
     0 < unat (mem_start s) \<and> 16 dvd unat (mem_start s)
     \<and> unat (mem_start s) + mem_max s < 2 ^ 63
     \<and> unat (heap_size s) \<le> mem_brk s \<and> mem_brk s \<le> mem_max s"

text \<open>The structure of a heap, whatever the signs of the stored sizes: the blocks tile the heap,
  the headers and \<open>malloc_list_tail\<close> agree with them, and the free list is a null-terminated
  list of distinct blocks.\<close>

definition heap_struct :: "(nat \<times> int) list \<Rightarrow> nat list \<Rightarrow> mm_state \<Rightarrow> bool" where
  "heap_struct bs fl s \<longleftrightarrow>
     arena_ok s
     \<and> layout (unat (mem_start s)) bs (unat (mem_start s) + unat (heap_size s))
     \<and> headers s 0 bs
     \<and> malloc_list_tail s = (if bs = [] then NULL else ptr (fst (last bs)))
     \<and> lseg s 0 fl (free_list_head s) NULL
     \<and> distinct fl
     \<and> set fl \<subseteq> set (map fst bs)"

text \<open>Separation of the cells of two blocks, as the two facts that the proofs about memory
  updates need: the four fields of a block at \<open>x\<close> are at non-null addresses that do not wrap,
  and the fields of two blocks do not overlap.\<close>

definition inb :: "nat \<Rightarrow> bool" where
  "inb x \<longleftrightarrow> 0 < x \<and> x + 32 < 2 ^ 63"

definition apart :: "nat \<Rightarrow> nat \<Rightarrow> bool" where
  "apart x y \<longleftrightarrow> (x + 32 \<le> y \<or> y + 32 \<le> x) \<and> x + 32 < 2 ^ 63 \<and> y + 32 < 2 ^ 63"

text \<open>Two states with the same arena and the same heap size.\<close>

definition same_arena :: "mm_state \<Rightarrow> mm_state \<Rightarrow> bool" where
  "same_arena s s' \<longleftrightarrow>
     heap_size s' = heap_size s \<and> mem_start s' = mem_start s
     \<and> mem_brk s' = mem_brk s \<and> mem_max s' = mem_max s"

text \<open>The memory of \<open>s'\<close> is that of \<open>s\<close> except for the headers (size and \<open>prev\<close>) of the
  blocks in \<open>W\<close>.\<close>

definition hdr_upd :: "nat set \<Rightarrow> mm_state \<Rightarrow> mm_state \<Rightarrow> bool" where
  "hdr_upd W s s' \<longleftrightarrow>
     (\<forall>c. (\<forall>w\<in>W. c \<noteq> ptr w \<and> c \<noteq> ptr (w + 8)) \<longrightarrow> mem s' c = mem s c)"

text \<open>What the fit search returns in a well-formed heap, for a request of \<open>r\<close> bytes.\<close>

definition fit :: "(nat \<times> int) list \<Rightarrow> nat list \<Rightarrow> int \<Rightarrow> nat option" where
  "fit bs fl r =
     (if bs \<noteq> [] \<and> snd (last bs) \<le> - r then Some (fst (last bs))
      else find (\<lambda>f. the (map_of bs f) \<le> - r) fl)"

text \<open>What \<open>coalesce\<close> does to the two lists when it is called on the block at \<open>a\<close> of stored
  size \<open>za\<close>, with the blocks \<open>pre\<close> before it and \<open>post\<close> after it: \<open>pfree\<close> and \<open>nfree\<close> say
  that the previous and the next block are free, \<open>co_blk\<close> is the block that remains,
  \<open>co_bs\<close> the new chain and \<open>co_fl\<close> the new free list.\<close>

definition pfree :: "(nat \<times> int) list \<Rightarrow> bool" where
  "pfree pre \<longleftrightarrow> pre \<noteq> [] \<and> snd (last pre) < 0"

definition nfree :: "(nat \<times> int) list \<Rightarrow> bool" where
  "nfree post \<longleftrightarrow> post \<noteq> [] \<and> snd (hd post) < 0"

definition co_blk :: "(nat \<times> int) list \<Rightarrow> nat \<Rightarrow> nat" where
  "co_blk pre a = (if pfree pre then fst (last pre) else a)"

definition co_bs ::
  "(nat \<times> int) list \<Rightarrow> nat \<Rightarrow> int \<Rightarrow> (nat \<times> int) list \<Rightarrow> (nat \<times> int) list" where
  "co_bs pre a za post =
     (if pfree pre then butlast pre else pre)
     @ (co_blk pre a,
        (if pfree pre then snd (last pre) + za - 16 else za)
        + (if nfree post then snd (hd post) - 16 else 0))
     # (if nfree post then tl post else post)"

definition co_fl :: "(nat \<times> int) list \<Rightarrow> nat \<Rightarrow> (nat \<times> int) list \<Rightarrow> nat list \<Rightarrow> nat list" where
  "co_fl pre a post fl =
     co_blk pre a
     # (let fl1 = (if pfree pre then remove1 (fst (last pre)) fl else fl)
        in if nfree post then remove1 (fst (hd post)) fl1 else fl1)"

text \<open>A well-formed heap: the structure above, and the members of the free list are exactly the
  blocks of negative stored size.\<close>

definition frees :: "(nat \<times> int) list \<Rightarrow> nat list" where
  "frees bs = map fst (filter (\<lambda>x. snd x < 0) bs)"

definition heap_ok :: "(nat \<times> int) list \<Rightarrow> nat list \<Rightarrow> mm_state \<Rightarrow> bool" where
  "heap_ok bs fl s \<longleftrightarrow> heap_struct bs fl s \<and> set fl = set (frees bs)"

text \<open>The successor of the block at \<open>a\<close> in a chain of blocks in address order, if it has
  one.\<close>

fun chain_succ :: "(nat \<times> int) list \<Rightarrow> nat \<Rightarrow> nat option" where
  "chain_succ (x # y # bs) a = (if fst x = a then Some (fst y) else chain_succ (y # bs) a)"
| "chain_succ [x] a = None"
| "chain_succ [] a = None"

text \<open>No two blocks that follow each other in the chain are both free; \<open>allocs\<close> are the
  allocated blocks.\<close>

fun naf :: "(nat \<times> int) list \<Rightarrow> bool" where
  "naf (x # y # bs) \<longleftrightarrow> \<not> (snd x < 0 \<and> snd y < 0) \<and> naf (y # bs)"
| "naf [x] \<longleftrightarrow> True"
| "naf [] \<longleftrightarrow> True"

definition allocs :: "(nat \<times> int) list \<Rightarrow> nat list" where
  "allocs bs = map fst (filter (\<lambda>x. 0 < snd x) bs)"

text \<open>The invariant of a client run: the heap is well formed, no two adjacent blocks are free,
  and the pointers that the client holds are the payloads of distinct allocated blocks.
  \<open>small_call\<close> bounds the requested size by \<open>2 ^ 63\<close>, and \<open>arena_base\<close> is what \<open>mm_init\<close> needs
  of the arena.\<close>

definition payload :: "nat \<Rightarrow> addr" where
  "payload b = ptr (b + 16)"

definition client_inv ::
  "(nat \<times> int) list \<Rightarrow> nat list \<Rightarrow> mm_state \<times> addr list \<Rightarrow> bool" where
  "client_inv bs fl c \<longleftrightarrow>
     heap_ok bs fl (fst c) \<and> naf bs \<and> distinct (snd c)
     \<and> set (snd c) \<subseteq> payload ` set (allocs bs)"

fun small_call :: "call \<Rightarrow> bool" where
  "small_call (Malloc n) \<longleftrightarrow> unat n \<le> 2 ^ 63"
| "small_call Init \<longleftrightarrow> True"
| "small_call (Free p) \<longleftrightarrow> True"

definition arena_base :: "mm_state \<Rightarrow> bool" where
  "arena_base s \<longleftrightarrow>
     0 < unat (mem_start s) \<and> 16 dvd unat (mem_start s)
     \<and> unat (mem_start s) + mem_max s < 2 ^ 63 \<and> mem_brk s \<le> mem_max s"

text \<open>The two invariants as the program could compute them, from the chain of blocks and the
  free list that the traversals return: no two blocks that follow each other in the chain are
  both free, and a block is a member of the free list exactly when its stored size is
  negative.\<close>

definition is_free :: "mm_state \<Rightarrow> addr \<Rightarrow> bool" where
  "is_free s b \<longleftrightarrow> info_size s b <s 0"

fun adjacent_free :: "bool list \<Rightarrow> bool" where
  "adjacent_free (x # y # bs) \<longleftrightarrow> (x \<and> y) \<or> adjacent_free (y # bs)"
| "adjacent_free [x] \<longleftrightarrow> False"
| "adjacent_free [] \<longleftrightarrow> False"

definition no_adjacent_free :: "mm_state \<Rightarrow> bool" where
  "no_adjacent_free s =
     (case block_chain s of None \<Rightarrow> False
      | Some bc \<Rightarrow> \<not> adjacent_free (map (is_free s) bc))"

definition sign_matches_free_list :: "mm_state \<Rightarrow> bool" where
  "sign_matches_free_list s =
     (case block_chain s of None \<Rightarrow> False
      | Some bc \<Rightarrow>
          (case free_list s of None \<Rightarrow> False
           | Some fl \<Rightarrow> distinct fl \<and> list_all (\<lambda>f. f \<in> set bc) fl
                        \<and> list_all (\<lambda>b. (b \<in> set fl) = is_free s b) bc))"

subsection \<open>What a scenario leaves behind, continued\<close>

definition final_check :: "call list \<Rightarrow> check_message list option" where
  "final_check calls = Option.bind (final_state calls) check_heap"

definition final_sign_matches :: "call list \<Rightarrow> bool option" where
  "final_sign_matches calls = map_option sign_matches_free_list (final_state calls)"

definition final_no_adjacent_free :: "call list \<Rightarrow> bool option" where
  "final_no_adjacent_free calls = map_option no_adjacent_free (final_state calls)"

subsection \<open>Three well-formed heaps\<close>

text \<open>
  \<open>one_free\<close> is the state after \<open>mm_init\<close>, \<open>mm_malloc 64\<close> and \<open>mm_free\<close> of its result
  in \<open>arena\<close>: one free block of capacity 64 at 4096. \<open>three_blocks\<close> is the state after
  three \<open>mm_malloc 64\<close> and \<open>mm_free\<close> of the first and the third result: blocks at 4096,
  4176 and 4256, the middle one allocated, the free list holding 4256 and then 4096.
  \<open>two_blocks\<close> is the state after \<open>mm_init\<close>, \<open>mm_malloc 64\<close>, \<open>mm_malloc 16\<close> and \<open>mm_free\<close>
  of the first result: a free block of capacity 64 at 4096, followed by an allocated block of
  size 16 at 4176, which is the chain tail.
\<close>

definition one_free :: mm_state where
  "one_free = \<lparr>free_list_head = 4096, malloc_list_tail = 4096, heap_size = 80,
               mem = (\<lambda>_. 0)(4096 := - 64), mem_start = 4096, mem_brk = 80,
               mem_max = 1048576\<rparr>"

definition three_blocks :: mm_state where
  "three_blocks = \<lparr>free_list_head = 4256, malloc_list_tail = 4256, heap_size = 240,
                   mem = (\<lambda>_. 0)(4096 := - 64, 4120 := 4256, 4176 := 64, 4184 := 4096,
                                  4256 := - 64, 4264 := 4176, 4272 := 4096),
                   mem_start = 4096, mem_brk = 240, mem_max = 1048576\<rparr>"

definition two_blocks :: mm_state where
  "two_blocks = \<lparr>free_list_head = 4096, malloc_list_tail = 4176, heap_size = 112,
                 mem = (\<lambda>_. 0)(4096 := - 64, 4176 := 16, 4184 := 4096),
                 mem_start = 4096, mem_brk = 112, mem_max = 1048576\<rparr>"

section \<open>Evaluation\<close>

lemmas mm_defs =
  mm_init_def mm_malloc_def mm_free_def coalesce_def coalesce_prev_def coalesce_next_def
  malloc_split_def malloc_exact_def
  malloc_extend_def requestMoreSpace_def mem_sbrk_def mem_heap_lo_def next_block_def
  searchFreeList_def insertFreeBlock_def removeFreeBlock_def round_request_def
  info_size_def info_prev_def nextFree_def prevFree_def
  set_size_def set_prev_def set_nextFree_def set_prevFree_def
  NULL_def ALIGNMENT_def sizeof_BlockInfo_def Let_def

lemmas run_defs =
  mm_defs arena_def searchFreeList_loop.simps chain_from.simps free_list_from.simps
  block_chain_def free_list_def final_state_def final_live_def final_heap_size_def
  final_chain_def final_free_list_def final_search_def word_sle_eq word_sless_alt
  check_heap_def check_chain.simps check_free.simps final_check_def
  final_sign_matches_def final_no_adjacent_free_def sign_matches_free_list_def
  no_adjacent_free_def is_free_def

section \<open>Scenario B\<close>

text \<open>
  After \<open>scenario_B\<close> the chain is one free block of capacity 144: the two payloads of 64
  bytes and the header of the second block.
\<close>

lemma scenario_B_state:
  "final_chain scenario_B = Some [(4096, - 144)]
   \<and> final_free_list scenario_B = Some [4096]
   \<and> final_heap_size scenario_B = Some 160"
  by (simp add: scenario_B_def run_defs)

text \<open>
  C2, as stated, fails: \<open>mm_malloc\<close> of 136 bytes after \<open>scenario_B\<close> returns the payload
  address of the first block (4112) and the heap size stays what it was, so the request
  reuses the coalesced region and the arena does not grow.
\<close>

theorem C2_alloc_136_reuses_counterexample:
  "final_live (scenario_B @ [Malloc 136]) = Some [4112]
   \<and> final_heap_size (scenario_B @ [Malloc 136]) = final_heap_size scenario_B"
  by (simp add: scenario_B_def run_defs)

text \<open>
  C2, amended. After \<open>scenario_B\<close> the coalesced free block has capacity 144
  (64 + 64 + the 16 bytes of one header). \<open>mm_malloc\<close> of 136 bytes (rounded to 144) and
  \<open>mm_malloc\<close> of 128 bytes each return the payload address 4112 of the coalesced block
  and leave the heap size at 160; \<open>mm_malloc\<close> of 145 bytes (rounded to 160) does not fit:
  it returns the payload of a new block at the end of the heap (4272) and the heap grows
  to 336 bytes.
\<close>

theorem C2_scenario_B_amended:
  "final_chain scenario_B = Some [(4096, - 144)]
   \<and> final_heap_size scenario_B = Some 160
   \<and> final_live (scenario_B @ [Malloc 136]) = Some [4112]
   \<and> final_heap_size (scenario_B @ [Malloc 136]) = Some 160
   \<and> final_live (scenario_B @ [Malloc 128]) = Some [4112]
   \<and> final_heap_size (scenario_B @ [Malloc 128]) = Some 160
   \<and> final_live (scenario_B @ [Malloc 145]) = Some [4272]
   \<and> final_heap_size (scenario_B @ [Malloc 145]) = Some 336"
  by (simp add: scenario_B_def run_defs)

section \<open>Degenerate calls\<close>

text \<open>
  C8. \<open>mm_malloc\<close> with size 0 returns the null pointer and leaves the state as it was;
  \<open>mm_free\<close> of the null pointer leaves the state as it was. Neither is an error: the
  first call returns normally, the second has no failure value at all.
\<close>

theorem C8_zero_malloc_and_null_free_are_noops:
  "mm_malloc s 0 = Some (Inr (NULL, s)) \<and> mm_free s NULL = s"
  by (simp add: mm_malloc_def mm_free_def)

text \<open>
  C9. When \<open>coalesce\<close> is called on the null reference, or on a block whose stored size
  is not negative, it returns the state it was given: free-list head, chain tail, heap
  size and all of memory are unchanged.
\<close>

theorem C9_coalesce_frame:
  "blockInfo = NULL \<or> 0 \<le>s info_size s blockInfo \<Longrightarrow> coalesce s blockInfo = s"
  by (simp add: coalesce_def)

text \<open>
  C10. \<open>mm_init\<close> returns 0 from every state; afterwards the free-list head and the
  chain tail are null and the heap size is 0; a second \<open>mm_init\<close> right after the first
  returns 0 again and gives the same state as the first.
\<close>

theorem C10_init_total_and_idempotent:
  "fst (mm_init s) = 0
   \<and> free_list_head (snd (mm_init s)) = NULL
   \<and> malloc_list_tail (snd (mm_init s)) = NULL
   \<and> heap_size (snd (mm_init s)) = 0
   \<and> mm_init (snd (mm_init s)) = mm_init s"
  by (simp add: mm_init_def)

theorem C9_coalesce_frame_witness:
  "(4096 = NULL \<or> 0 \<le>s info_size one_block 4096) \<and> coalesce one_block 4096 = one_block"
proof -
  have h: "4096 = NULL \<or> 0 \<le>s info_size one_block 4096"
    by (simp add: one_block_def info_size_def word_sle_eq)
  from C9_coalesce_frame [OF h] h show ?thesis by simp
qed

section \<open>Requests above the range of long int\<close>

text \<open>
  The request size is a \<^verbatim>\<open>size_t\<close>; \<open>mm_malloc\<close> rounds it with unsigned arithmetic and
  keeps it in a \<^verbatim>\<open>long int\<close>, and \<open>searchFreeList\<close> negates it. Nothing checks the range.
  The four evaluations below run the code on requests of \<open>2 ^ 64 - 16\<close> and \<open>2 ^ 64 - 1\<close>
  bytes.
\<close>

text \<open>
  C5 at the failing input. \<open>mm_malloc\<close> of \<open>SIZE_MAX\<close> bytes right after \<open>mm_init\<close>: the
  rounding wraps around to 0 instead of rounding up, the call returns the non-null
  pointer 4112, and the block it made has stored size 0 in a heap of 16 bytes.
\<close>

theorem C5_rounding_wraps_at_size_max:
  "round_request SIZE_MAX = 0
   \<and> final_live [Init, Malloc SIZE_MAX] = Some [4112]
   \<and> final_chain [Init, Malloc SIZE_MAX] = Some [(4096, 0)]
   \<and> final_heap_size [Init, Malloc SIZE_MAX] = Some 16"
  by (simp add: SIZE_MAX_def run_defs)

text \<open>
  C7 at the failing input. After \<open>mm_init\<close>, \<open>mm_malloc 32\<close> and \<open>mm_free\<close> of its result
  the chain is one free block of capacity 32. The fit search for the aligned size
  \<open>2 ^ 64 - 16\<close> returns that block, whose capacity is far below the request.
\<close>

theorem C7_search_returns_too_small_block:
  "final_chain [Init, Malloc 32, Free 4112] = Some [(4096, - 32)]
   \<and> final_search [Init, Malloc 32, Free 4112] huge_aligned = Some 4096
   \<and> unat huge_aligned mod 16 = 0
   \<and> 32 < unat huge_aligned"
  by (simp add: huge_aligned_def run_defs)

text \<open>
  C3 at the failing input. A block of 16 bytes is allocated and freed; \<open>mm_malloc\<close> of
  \<open>2 ^ 64 - 16\<close> bytes then returns its payload again while leaving the block in the free
  list with a negative size; the client frees that pointer. Afterwards the block at 4096
  has the positive stored size 16 and is still the member of the free list.
\<close>

theorem C3_allocated_block_in_free_list:
  "final_live [Init, Malloc 16, Free 4112, Malloc huge_aligned] = Some [4112]
   \<and> final_chain stale_trace = Some [(4096, 16)]
   \<and> final_free_list stale_trace = Some [4096]
   \<and> final_live stale_trace = Some []
   \<and> final_sign_matches stale_trace = Some False
   \<and> final_check stale_trace = Some [Previous_link_not_correct, Free_list_has_more_items]"
  by (simp add: stale_trace_def huge_aligned_def run_defs)

text \<open>
  C1 at the failing input. Two blocks of 16 bytes are allocated at 4096 and 4128. The
  second is freed, handed out again by \<open>mm_malloc\<close> of \<open>2 ^ 64 - 16\<close> bytes (which leaves
  it in the free list with a link to itself as its chain predecessor) and handed out a
  third time by \<open>mm_malloc 16\<close>. The client then frees the first block and one of its two
  leases of the second. After that last \<open>mm_free\<close> returns, the chain holds two
  neighbouring blocks that are both free (sizes -16 and -48) and only the second is in
  the free list.
\<close>

theorem C1_adjacent_free_blocks_after_free:
  "final_live [Init, Malloc 16, Malloc 16, Free 4144, Malloc huge_aligned, Malloc 16]
     = Some [4144, 4144, 4112]
   \<and> final_chain overlap_trace = Some [(4096, - 16), (4128, - 48)]
   \<and> final_free_list overlap_trace = Some [4128]
   \<and> final_live overlap_trace = Some [4144]
   \<and> final_no_adjacent_free overlap_trace = Some False
   \<and> final_sign_matches overlap_trace = Some False
   \<and> final_check overlap_trace = Some [Previous_link_not_correct]"
  by (simp add: overlap_trace_def huge_aligned_def run_defs)

section \<open>The heap structure is preserved\<close>

subsection \<open>Addresses and sizes as numbers\<close>

lemma ptr_0 [simp]: "ptr 0 = 0" by (simp add: ptr_def)

lemma ptr_add: "ptr a + ptr b = ptr (a + b)" by (simp add: ptr_def)

lemma ptr_num: "(numeral n :: 64 word) = ptr (numeral n)" by (simp add: ptr_def)

lemma ptr_add_num [simp]: "ptr a + numeral n = ptr (a + numeral n)" by (simp add: ptr_def)

lemma unat_ptr [simp]: "a < 2 ^ 64 \<Longrightarrow> unat (ptr a) = a"
  by (simp add: ptr_def of_nat_inverse)

lemma ptr_eq_iff [simp]: "a < 2 ^ 64 \<Longrightarrow> b < 2 ^ 64 \<Longrightarrow> (ptr a = ptr b) = (a = b)"
  by (metis unat_ptr)

lemma ptr_eq_0_iff [simp]: "a < 2 ^ 64 \<Longrightarrow> (ptr a = 0) = (a = 0)"
  using ptr_eq_iff[of a 0] by simp

lemma ptr_le_iff [simp]: "a < 2 ^ 64 \<Longrightarrow> b < 2 ^ 64 \<Longrightarrow> (ptr a \<le> ptr b) = (a \<le> b)"
  by (simp add: word_le_nat_alt)

lemma ptr_less_iff [simp]: "a < 2 ^ 64 \<Longrightarrow> b < 2 ^ 64 \<Longrightarrow> (ptr a < ptr b) = (a < b)"
  by (simp add: word_less_nat_alt)

lemma sint_sz [simp]: "- (2 ^ 63) \<le> z \<Longrightarrow> z < 2 ^ 63 \<Longrightarrow> sint (sz z) = z"
  by (simp add: sz_def signed_of_int signed_take_bit_int_eq_self)

lemma sz_uminus [simp]: "- sz z = sz (- z)" by (simp add: sz_def)

lemma sz_add [simp]: "sz a + sz b = sz (a + b)" by (simp add: sz_def)

lemma sz_diff [simp]: "sz a - sz b = sz (a - b)" by (simp add: sz_def)

lemma sz_0 [simp]: "sz 0 = 0" by (simp add: sz_def)

lemma sz_num: "(numeral n :: 64 word) = sz (numeral n)" by (simp add: sz_def)

lemma sz_add_num [simp]: "sz a + numeral n = sz (a + numeral n)" by (simp add: sz_def)

lemma sz_diff_num [simp]: "sz a - numeral n = sz (a - numeral n)" by (simp add: sz_def)

lemma sz_ptr: "0 \<le> z \<Longrightarrow> sz z = ptr (nat z)" by (simp add: sz_def ptr_def)

lemma ptr_sz: "ptr k = sz (int k)" by (simp add: sz_def ptr_def)

lemma sz_sle_iff [simp]:
  "- (2 ^ 63) \<le> a \<Longrightarrow> a < 2 ^ 63 \<Longrightarrow> - (2 ^ 63) \<le> b \<Longrightarrow> b < 2 ^ 63 \<Longrightarrow> (sz a \<le>s sz b) = (a \<le> b)"
  by (simp add: word_sle_eq)

lemma sz_sless_iff [simp]:
  "- (2 ^ 63) \<le> a \<Longrightarrow> a < 2 ^ 63 \<Longrightarrow> - (2 ^ 63) \<le> b \<Longrightarrow> b < 2 ^ 63 \<Longrightarrow> (sz a <s sz b) = (a < b)"
  by (simp add: word_sless_alt)

lemma sz_sle_0 [simp]: "- (2 ^ 63) \<le> a \<Longrightarrow> a < 2 ^ 63 \<Longrightarrow> (0 \<le>s sz a) = (0 \<le> a)"
  using sz_sle_iff[of 0 a] by simp

lemma sz_sless_0 [simp]: "- (2 ^ 63) \<le> a \<Longrightarrow> a < 2 ^ 63 \<Longrightarrow> (sz a <s 0) = (a < 0)"
  using sz_sless_iff[of a 0] by simp

lemma sz_0_sless [simp]: "- (2 ^ 63) \<le> a \<Longrightarrow> a < 2 ^ 63 \<Longrightarrow> (0 <s sz a) = (0 < a)"
  using sz_sless_iff[of 0 a] by simp

lemma layout_le: "layout a bs e \<Longrightarrow> a \<le> e"
  by (induction a bs e rule: layout.induct) auto

lemma layout_append:
  "layout a (xs @ ys) e \<longleftrightarrow> (\<exists>m. layout a xs m \<and> layout m ys e)"
  by (induction a xs e rule: layout.induct) auto

lemma layout_mem:
  "layout a bs e \<Longrightarrow> (b, z) \<in> set bs \<Longrightarrow> a \<le> b \<and> b + 32 \<le> e \<and> b + 16 + nat \<bar>z\<bar> \<le> e \<and> 16 dvd z \<and> z \<noteq> 0"
proof (induction a bs e rule: layout.induct)
  case (1 a e)
  then show ?case by simp
next
  case (2 a b' z' bs e)
  have "16 \<le> \<bar>z'\<bar>" using 2(2) by (auto dest: zdvd_imp_le [of 16 "\<bar>z'\<bar>"])
  with 2 layout_le[of "a + 16 + nat \<bar>z'\<bar>" bs e] show ?case by auto
qed

lemma layout_sep:
  "layout a bs e \<Longrightarrow> (b, z) \<in> set bs \<Longrightarrow> (b', z') \<in> set bs \<Longrightarrow>
     (b = b' \<and> z = z') \<or> b + 32 \<le> b' \<or> b' + 32 \<le> b"
proof (induction a bs e rule: layout.induct)
  case (1 a e)
  then show ?case by simp
next
  case (2 a b0 z0 bs e)
  have z0: "16 \<le> \<bar>z0\<bar>" using 2(2) by (auto dest: zdvd_imp_le [of 16 "\<bar>z0\<bar>"])
  from 2(2) have lay: "layout (a + 16 + nat \<bar>z0\<bar>) bs e" and b0: "b0 = a" by auto
  show ?case
  proof (cases "(b, z) = (b0, z0)")
    case True
    note T = this
    show ?thesis
    proof (cases "(b', z') = (b0, z0)")
      case True
      with T show ?thesis by simp
    next
      case False
      with 2(4) have "(b', z') \<in> set bs" by auto
      from layout_mem[OF lay this] T b0 z0 show ?thesis by auto
    qed
  next
    case False
    with 2(3) have bin: "(b, z) \<in> set bs" by auto
    show ?thesis
    proof (cases "(b', z') = (b0, z0)")
      case True
      from layout_mem[OF lay bin] True b0 z0 show ?thesis by auto
    next
      case False
      with 2(4) have "(b', z') \<in> set bs" by auto
      from 2(1)[OF lay bin this] show ?thesis by auto
    qed
  qed
qed

lemma layout_distinct: "layout a bs e \<Longrightarrow> distinct (map fst bs)"
proof (induction a bs e rule: layout.induct)
  case (1 a e)
  then show ?case by simp
next
  case (2 a b0 z0 bs e)
  from 2(2) have lay: "layout (a + 16 + nat \<bar>z0\<bar>) bs e" and b0: "b0 = a" by auto
  have "b0 \<notin> fst ` set bs"
  proof
    assume "b0 \<in> fst ` set bs"
    then obtain z where "(b0, z) \<in> set bs" by auto
    from layout_mem[OF lay this] b0 show False by simp
  qed
  with 2 show ?case by auto
qed

lemma lseg_append:
  "lseg s p (xs @ ys) h e \<longleftrightarrow> (\<exists>m. lseg s p xs h m \<and> lseg s (last (p # xs)) ys m e)"
  by (induction xs arbitrary: p h) auto

lemma lseg_frame:
  "lseg s p fl h e \<Longrightarrow>
   (\<And>f. f \<in> set fl \<Longrightarrow> nextFree s' (ptr f) = nextFree s (ptr f)
                          \<and> prevFree s' (ptr f) = prevFree s (ptr f)) \<Longrightarrow>
   lseg s' p fl h e"
  by (induction fl arbitrary: p h) auto

lemma headers_frame:
  "headers s p bs \<Longrightarrow>
   (\<And>b. b \<in> fst ` set bs \<Longrightarrow> info_size s' (ptr b) = info_size s (ptr b)
                               \<and> info_prev s' (ptr b) = info_prev s (ptr b)) \<Longrightarrow>
   headers s' p bs"
  by (induction s p bs rule: headers.induct) auto

lemma headers_append:
  "headers s p (xs @ ys) \<longleftrightarrow> headers s p xs \<and> headers s (last (p # map fst xs)) ys"
  by (induction s p xs rule: headers.induct) auto

lemmas fld_defs = info_size_def info_prev_def nextFree_def prevFree_def
  set_size_def set_prev_def set_nextFree_def set_prevFree_def

lemma apart_sym: "apart x y \<Longrightarrow> apart y x" by (auto simp: apart_def)

lemma apart_irrefl [simp]: "apart x x = False" by (simp add: apart_def)

lemma apart_cells2:
  "apart x y \<or> apart y x \<Longrightarrow> i < 32 \<Longrightarrow> j < 32 \<Longrightarrow> (ptr (x + i) = ptr (y + j)) = False"
  by (auto simp: apart_def)

lemma apart_cells1r:
  "apart x y \<or> apart y x \<Longrightarrow> j < 32 \<Longrightarrow> (ptr x = ptr (y + j)) = False"
  by (auto simp: apart_def)

lemma apart_cells1l:
  "apart x y \<or> apart y x \<Longrightarrow> i < 32 \<Longrightarrow> (ptr (x + i) = ptr y) = False"
  by (auto simp: apart_def)

lemma apart_cells0:
  "apart x y \<or> apart y x \<Longrightarrow> (ptr x = ptr y) = False"
  by (auto simp: apart_def)

lemma inb_cells2: "inb x \<Longrightarrow> i < 32 \<Longrightarrow> j < 32 \<Longrightarrow> (ptr (x + i) = ptr (x + j)) = (i = j)"
  by (auto simp: inb_def)

lemma inb_cells1r: "inb x \<Longrightarrow> j < 32 \<Longrightarrow> (ptr x = ptr (x + j)) = (j = 0)"
  by (auto simp: inb_def)

lemma inb_cells1l: "inb x \<Longrightarrow> i < 32 \<Longrightarrow> (ptr (x + i) = ptr x) = (i = 0)"
  by (auto simp: inb_def)

lemma inb_null: "inb x \<Longrightarrow> (ptr x = 0) = False"
  by (auto simp: inb_def)

lemma inb_null2: "inb x \<Longrightarrow> i < 32 \<Longrightarrow> (ptr (x + i) = 0) = False"
  by (auto simp: inb_def)

lemmas cells [simp] = apart_cells2 apart_cells1r apart_cells1l apart_cells0
  inb_cells2 inb_cells1r inb_cells1l inb_null inb_null2

lemma struct_inb:
  assumes "heap_struct bs fl s" and "x \<in> fst ` set bs"
  shows "inb x"
proof -
  from assms(2) obtain z where z: "(x, z) \<in> set bs" by auto
  from assms(1) have lay: "layout (unat (mem_start s)) bs (unat (mem_start s) + unat (heap_size s))"
    and ar: "arena_ok s" by (auto simp: heap_struct_def)
  from layout_mem[OF lay z] ar show ?thesis by (auto simp: arena_ok_def inb_def)
qed

lemma struct_apart:
  assumes "heap_struct bs fl s" and "x \<in> fst ` set bs" and "y \<in> fst ` set bs"
  shows "x = y \<or> apart x y"
proof -
  from assms obtain z z' where z: "(x, z) \<in> set bs" "(y, z') \<in> set bs" by auto
  from assms(1) have lay: "layout (unat (mem_start s)) bs (unat (mem_start s) + unat (heap_size s))"
    by (auto simp: heap_struct_def)
  from layout_sep[OF lay z] struct_inb[OF assms(1,2)] struct_inb[OF assms(1,3)]
  show ?thesis by (auto simp: apart_def inb_def)
qed

lemma struct_fl_inb: "heap_struct bs fl s \<Longrightarrow> f \<in> set fl \<Longrightarrow> inb f"
  using struct_inb[of bs fl s f] by (auto simp: heap_struct_def)

lemma struct_fl_apart:
  "heap_struct bs fl s \<Longrightarrow> f \<in> set fl \<Longrightarrow> y \<in> fst ` set bs \<Longrightarrow> f = y \<or> apart f y"
  using struct_apart[of bs fl s f y] by (auto simp: heap_struct_def)

lemma struct_fl_apart2:
  "heap_struct bs fl s \<Longrightarrow> f \<in> set fl \<Longrightarrow> g \<in> set fl \<Longrightarrow> f = g \<or> apart f g"
  using struct_apart[of bs fl s f g] by (auto simp: heap_struct_def)

subsection \<open>Insertion in the free list\<close>

lemma heap_structI:
  "arena_ok s \<Longrightarrow>
   layout (unat (mem_start s)) bs (unat (mem_start s) + unat (heap_size s)) \<Longrightarrow>
   headers s 0 bs \<Longrightarrow>
   malloc_list_tail s = (if bs = [] then NULL else ptr (fst (last bs))) \<Longrightarrow>
   lseg s 0 fl (free_list_head s) NULL \<Longrightarrow> distinct fl \<Longrightarrow> set fl \<subseteq> fst ` set bs \<Longrightarrow>
   heap_struct bs fl s"
  by (simp add: heap_struct_def)

lemma heap_structD:
  assumes "heap_struct bs fl s"
  shows "arena_ok s"
    and "layout (unat (mem_start s)) bs (unat (mem_start s) + unat (heap_size s))"
    and "headers s 0 bs"
    and "malloc_list_tail s = (if bs = [] then NULL else ptr (fst (last bs)))"
    and "lseg s 0 fl (free_list_head s) NULL" and "distinct fl" and "set fl \<subseteq> fst ` set bs"
  using assms by (auto simp: heap_struct_def)

lemma same_arena_refl [simp]: "same_arena s s" by (simp add: same_arena_def)

lemma same_arena_trans: "same_arena s s1 \<Longrightarrow> same_arena s1 s2 \<Longrightarrow> same_arena s s2"
  by (simp add: same_arena_def)

lemma same_arena_upd [simp]:
  "same_arena s (set_size s1 b v) = same_arena s s1"
  "same_arena s (set_prev s1 b v) = same_arena s s1"
  "same_arena s (set_nextFree s1 b v) = same_arena s s1"
  "same_arena s (set_prevFree s1 b v) = same_arena s s1"
  "same_arena s (s1\<lparr>free_list_head := h\<rparr>) = same_arena s s1"
  "same_arena s (s1\<lparr>malloc_list_tail := h\<rparr>) = same_arena s s1"
  by (simp_all add: same_arena_def fld_defs)

lemma same_arena_ok: "arena_ok s \<Longrightarrow> same_arena s s' \<Longrightarrow> arena_ok s'"
  by (simp add: same_arena_def arena_ok_def)

lemma same_arena_layout:
  "layout (unat (mem_start s)) bs (unat (mem_start s) + unat (heap_size s)) \<Longrightarrow>
   same_arena s s' \<Longrightarrow>
   layout (unat (mem_start s')) bs (unat (mem_start s') + unat (heap_size s'))"
  by (simp add: same_arena_def)

lemma set_fields [simp]:
  "free_list_head (set_size s b v) = free_list_head s"
  "free_list_head (set_prev s b v) = free_list_head s"
  "free_list_head (set_nextFree s b v) = free_list_head s"
  "free_list_head (set_prevFree s b v) = free_list_head s"
  "malloc_list_tail (set_size s b v) = malloc_list_tail s"
  "malloc_list_tail (set_prev s b v) = malloc_list_tail s"
  "malloc_list_tail (set_nextFree s b v) = malloc_list_tail s"
  "malloc_list_tail (set_prevFree s b v) = malloc_list_tail s"
  "heap_size (set_size s b v) = heap_size s"
  "heap_size (set_prev s b v) = heap_size s"
  "heap_size (set_nextFree s b v) = heap_size s"
  "heap_size (set_prevFree s b v) = heap_size s"
  "mem_start (set_size s b v) = mem_start s"
  "mem_start (set_prev s b v) = mem_start s"
  "mem_start (set_nextFree s b v) = mem_start s"
  "mem_start (set_prevFree s b v) = mem_start s"
  by (simp_all add: fld_defs)

lemma insert_same_arena [simp]: "same_arena s (insertFreeBlock s b)"
  by (simp add: insertFreeBlock_def Let_def)

lemma insert_tail [simp]: "malloc_list_tail (insertFreeBlock s b) = malloc_list_tail s"
  by (simp add: insertFreeBlock_def Let_def fld_defs)

lemma remove_same_arena [simp]: "same_arena s (removeFreeBlock s b)"
  by (simp add: removeFreeBlock_def Let_def)

lemma remove_tail [simp]: "malloc_list_tail (removeFreeBlock s b) = malloc_list_tail s"
  by (simp add: removeFreeBlock_def Let_def fld_defs)

lemma insert_struct:
  assumes hs: "heap_struct bs fl s" and a: "a \<in> fst ` set bs" and nin: "a \<notin> set fl"
  shows "heap_struct bs (a # fl) (insertFreeBlock s (ptr a))"
proof -
  note ia = struct_inb[OF hs a]
  from hs have sub: "set fl \<subseteq> fst ` set bs" and dist: "distinct fl"
    and ls: "lseg s 0 fl (free_list_head s) NULL" and hd: "headers s 0 bs"
    by (auto simp: heap_struct_def)
  have fa: "apart f a" if "f \<in> set fl" for f
    using struct_fl_apart[OF hs that a] that nin by auto
  let ?s' = "insertFreeBlock s (ptr a)"
  show ?thesis
  proof (cases fl)
    case Nil
    with ls have h0: "free_list_head s = NULL" by simp
    have e: "?s' = (set_nextFree (set_prevFree s (ptr a) NULL) (ptr a) NULL)\<lparr>free_list_head := ptr a\<rparr>"
      using ia h0 by (simp add: insertFreeBlock_def NULL_def fld_defs)
    have "headers ?s' 0 bs"
      using hd
    proof (rule headers_frame)
      fix b assume b: "b \<in> fst ` set bs"
      from struct_inb[OF hs b] struct_apart[OF hs b a] ia
      show "info_size ?s' (ptr b) = info_size s (ptr b) \<and> info_prev ?s' (ptr b) = info_prev s (ptr b)"
        unfolding e by (auto simp: fld_defs)
    qed
    moreover have "lseg ?s' 0 [a] (free_list_head ?s') NULL"
      unfolding e using ia by (simp add: fld_defs NULL_def)
    ultimately show ?thesis using heap_structD[OF hs] Nil a
      by (intro heap_structI same_arena_ok[where s=s and s'="insertFreeBlock s (ptr a)"]
            same_arena_layout[where s=s and s'="insertFreeBlock s (ptr a)"]) auto
  next
    case (Cons f fs)
    with ls have h0: "free_list_head s = ptr f" and pf: "prevFree s (ptr f) = ptr 0"
      and ls': "lseg s f fs (nextFree s (ptr f)) NULL" by auto
    have fin: "f \<in> set fl" using Cons by simp
    note iff = struct_fl_inb[OF hs fin] and af = fa[OF fin]
    have e: "?s' = (set_prevFree (set_nextFree (set_prevFree s (ptr a) NULL) (ptr a) (ptr f)) (ptr f) (ptr a))\<lparr>free_list_head := ptr a\<rparr>"
      using ia iff h0 by (simp add: insertFreeBlock_def NULL_def fld_defs)
    have "headers ?s' 0 bs"
      using hd
    proof (rule headers_frame)
      fix b assume b: "b \<in> fst ` set bs"
      from struct_inb[OF hs b] struct_apart[OF hs b a] struct_fl_apart[OF hs fin b] ia iff af
      show "info_size ?s' (ptr b) = info_size s (ptr b) \<and> info_prev ?s' (ptr b) = info_prev s (ptr b)"
        unfolding e by (auto simp: fld_defs)
    qed
    moreover have "lseg ?s' f fs (nextFree s (ptr f)) NULL"
      using ls'
    proof (rule lseg_frame)
      fix g assume g: "g \<in> set fs"
      then have gf: "g \<noteq> f" and gin: "g \<in> set fl" using dist Cons by auto
      from struct_fl_apart2[OF hs gin fin] gf struct_fl_inb[OF hs gin] fa[OF gin] ia iff af
      show "nextFree ?s' (ptr g) = nextFree s (ptr g) \<and> prevFree ?s' (ptr g) = prevFree s (ptr g)"
        unfolding e by (auto simp: fld_defs)
    qed
    moreover have "nextFree ?s' (ptr f) = nextFree s (ptr f)" "prevFree ?s' (ptr f) = ptr a"
      "prevFree ?s' (ptr a) = ptr 0" "nextFree ?s' (ptr a) = ptr f"
      unfolding e using ia iff af by (auto simp: fld_defs NULL_def)
    moreover have "free_list_head ?s' = ptr a" unfolding e by (simp add: fld_defs)
    ultimately show ?thesis using heap_structD[OF hs] Cons a nin
      by (intro heap_structI same_arena_ok[where s=s and s'="insertFreeBlock s (ptr a)"]
            same_arena_layout[where s=s and s'="insertFreeBlock s (ptr a)"]) auto
  qed
qed

subsection \<open>Removal from the free list\<close>

lemma lseg_retarget:
  "lseg s p xs h e \<Longrightarrow> xs \<noteq> [] \<Longrightarrow> distinct xs \<Longrightarrow> (\<forall>f\<in>set xs. inb f) \<Longrightarrow>
   (\<forall>f\<in>set xs. \<forall>g\<in>set xs. f = g \<or> apart f g) \<Longrightarrow>
   lseg (set_nextFree s (ptr (last xs)) e') p xs h e'"
proof (induction xs arbitrary: p h)
  case Nil
  then show ?case by simp
next
  case (Cons x xs)
  show ?case
  proof (cases xs)
    case Nil
    with Cons.prems show ?thesis by (auto simp: fld_defs)
  next
    case (Cons x' xs')
    from Cons.prems(1) have h: "h = ptr x" "prevFree s h = ptr p"
      and rest: "lseg s x xs (nextFree s h) e" by auto
    have lin: "last xs \<in> set xs" using Cons by simp
    with Cons.prems(3) have "x \<noteq> last xs" by auto
    with Cons.prems(4,5) lin have ap: "apart x (last xs)" and ix: "inb x" "inb (last xs)"
      by auto
    have ih: "lseg (set_nextFree s (ptr (last xs)) e') x xs (nextFree s h) e'"
      using Cons.IH[OF rest] Cons.prems Cons by auto
    have fr: "nextFree (set_nextFree s (ptr (last xs)) e') (ptr x) = nextFree s (ptr x)"
      "prevFree (set_nextFree s (ptr (last xs)) e') (ptr x) = prevFree s (ptr x)"
      using ap ix by (auto simp: fld_defs)
    have l: "last (x # xs) = last xs" using Cons by simp
    show ?thesis unfolding l using ih h fr by simp
  qed
qed

lemma remove_struct:
  assumes hs: "heap_struct bs fl s" and a: "a \<in> set fl"
  shows "heap_struct bs (remove1 a fl) (removeFreeBlock s (ptr a))"
proof -
  note D = heap_structD[OF hs]
  from a obtain xs ys where fl: "fl = xs @ a # ys" by (auto dest: split_list)
  with D(6) have nx: "a \<notin> set xs" and ny: "a \<notin> set ys" and dx: "distinct xs" and dy: "distinct ys"
    and xy: "set xs \<inter> set ys = {}" by auto
  have r1: "remove1 a fl = xs @ ys" using fl nx by (simp add: remove1_append)
  from D(5) fl obtain m where m: "lseg s 0 xs (free_list_head s) m"
    and m2: "lseg s (last (0 # xs)) (a # ys) m NULL" by (auto simp: lseg_append)
  from m2 have ma: "m = ptr a" and pa: "prevFree s (ptr a) = ptr (last (0 # xs))"
    and lys: "lseg s a ys (nextFree s (ptr a)) NULL" by auto
  note ia = struct_fl_inb[OF hs a]
  have inx: "f \<in> set fl" if "f \<in> set xs" for f using that fl by simp
  have iny: "f \<in> set fl" if "f \<in> set ys" for f using that fl by simp
  have hne: "free_list_head s \<noteq> NULL"
  proof (cases xs)
    case Nil
    with m ma ia show ?thesis by (simp add: NULL_def)
  next
    case (Cons x xs')
    with m struct_fl_inb[OF hs inx[of x]] show ?thesis by (auto simp: NULL_def)
  qed
  let ?s' = "removeFreeBlock s (ptr a)"
  let ?n = "nextFree s (ptr a)"
  have nval: "?n = (if ys = [] then NULL else ptr (hd ys))"
    using lys by (cases ys) auto
  have pval: "prevFree s (ptr a) = (if xs = [] then NULL else ptr (last xs))"
    using pa by (simp add: NULL_def)
  have lastx: "last xs \<in> set fl" if "xs \<noteq> []" using that fl by simp
  have hdy: "hd ys \<in> set fl" if "ys \<noteq> []" using that fl by simp
  have e: "?s' =
     (if xs \<noteq> [] \<and> ys \<noteq> [] then set_prevFree (set_nextFree s (ptr (last xs)) (ptr (hd ys))) (ptr (hd ys)) (ptr (last xs))
      else if xs = [] \<and> ys \<noteq> [] then set_prevFree (s\<lparr>free_list_head := ptr (hd ys)\<rparr>) (ptr (hd ys)) NULL
      else if xs \<noteq> [] \<and> ys = [] then set_nextFree s (ptr (last xs)) NULL
      else s\<lparr>free_list_head := NULL\<rparr>)"
    using hne ia nval pval struct_fl_inb[OF hs lastx] struct_fl_inb[OF hs hdy]
    by (auto simp: removeFreeBlock_def NULL_def Let_def)
  have hdr: "headers ?s' 0 bs"
    using D(3)
  proof (rule headers_frame)
    fix b assume b: "b \<in> fst ` set bs"
    have "xs \<noteq> [] \<Longrightarrow> last xs = b \<or> apart (last xs) b" "ys \<noteq> [] \<Longrightarrow> hd ys = b \<or> apart (hd ys) b"
      using struct_fl_apart[OF hs lastx b] struct_fl_apart[OF hs hdy b] by auto
    with struct_inb[OF hs b]
    show "info_size ?s' (ptr b) = info_size s (ptr b) \<and> info_prev ?s' (ptr b) = info_prev s (ptr b)"
      unfolding e by (auto simp: fld_defs)
  qed
  have left: "lseg ?s' 0 xs (free_list_head ?s') ?n"
  proof (cases "xs = []")
    case True
    then show ?thesis using nval unfolding e by (auto simp: fld_defs)
  next
    case False
    have ax: "\<forall>f\<in>set xs. inb f" "\<forall>f\<in>set xs. \<forall>g\<in>set xs. f = g \<or> apart f g"
      using struct_fl_inb[OF hs inx] struct_fl_apart2[OF hs inx inx] by auto
    have 1: "lseg (set_nextFree s (ptr (last xs)) ?n) 0 xs (free_list_head s) ?n"
      using lseg_retarget[OF m False dx ax] .
    show ?thesis
    proof (cases "ys = []")
      case True
      with False 1 nval show ?thesis unfolding e by simp
    next
      case ne: False
      have hy: "hd ys \<in> set ys" using ne by simp
      let ?s1 = "set_nextFree s (ptr (last xs)) ?n"
      have "lseg (set_prevFree ?s1 (ptr (hd ys)) (ptr (last xs))) 0 xs (free_list_head s) ?n"
        using 1
      proof (rule lseg_frame)
        fix f assume f: "f \<in> set xs"
        with xy hy have "f \<noteq> hd ys" by auto
        with struct_fl_apart2[OF hs inx[OF f] hdy[OF ne]] have "apart f (hd ys)" by simp
        then show "nextFree (set_prevFree ?s1 (ptr (hd ys)) (ptr (last xs))) (ptr f) = nextFree ?s1 (ptr f)
            \<and> prevFree (set_prevFree ?s1 (ptr (hd ys)) (ptr (last xs))) (ptr f) = prevFree ?s1 (ptr f)"
          by (auto simp: fld_defs)
      qed
      with False ne nval show ?thesis unfolding e by (simp add: fld_defs)
    qed
  qed
  have right: "lseg ?s' (last (0 # xs)) ys ?n NULL"
  proof (cases ys)
    case Nil
    with lys show ?thesis by simp
  next
    case (Cons y ys')
    have yin: "y \<in> set fl" using Cons fl by simp
    note iy = struct_fl_inb[OF hs yin]
    from lys Cons have ny: "?n = ptr y" and lys': "lseg s y ys' (nextFree s (ptr y)) NULL" by auto
    have yl: "apart (last xs) y" if "xs \<noteq> []"
    proof -
      have "last xs \<in> set xs" using that by simp
      with xy Cons have "last xs \<noteq> y" by auto
      with struct_fl_apart2[OF hs lastx[OF that] yin] show ?thesis by simp
    qed
    have 1: "prevFree ?s' (ptr y) = ptr (last (0 # xs))" "nextFree ?s' (ptr y) = nextFree s (ptr y)"
      unfolding e using Cons iy yl by (auto simp: fld_defs NULL_def)
    have "lseg ?s' y ys' (nextFree s (ptr y)) NULL"
      using lys'
    proof (rule lseg_frame)
      fix g assume g: "g \<in> set ys'"
      then have gin: "g \<in> set fl" and gy: "g \<noteq> y" using fl Cons dy by auto
      have "apart g (last xs)" if "xs \<noteq> []"
      proof -
        have "last xs \<in> set xs" using that by simp
        with xy Cons g have "g \<noteq> last xs" by auto
        with struct_fl_apart2[OF hs gin lastx[OF that]] show ?thesis by simp
      qed
      with struct_fl_apart2[OF hs gin yin] gy struct_fl_inb[OF hs gin]
      show "nextFree ?s' (ptr g) = nextFree s (ptr g) \<and> prevFree ?s' (ptr g) = prevFree s (ptr g)"
        unfolding e using Cons by (auto simp: fld_defs)
    qed
    with 1 ny Cons show ?thesis by simp
  qed
  have ls: "lseg ?s' 0 (remove1 a fl) (free_list_head ?s') NULL"
    unfolding r1 lseg_append using left right by auto
  have sub: "set (remove1 a fl) \<subseteq> fst ` set bs"
    using D(7) set_remove1_subset[of a fl] by blast
  have dist: "distinct (remove1 a fl)" using D(6) by simp
  have ar: "arena_ok ?s'" by (rule same_arena_ok[OF D(1)]) simp
  have lay: "layout (unat (mem_start ?s')) bs (unat (mem_start ?s') + unat (heap_size ?s'))"
    by (rule same_arena_layout[OF D(2)]) simp
  have tl: "malloc_list_tail ?s' = (if bs = [] then NULL else ptr (fst (last bs)))"
    using D(4) by simp
  show ?thesis by (rule heap_structI[OF ar lay hdr tl ls dist sub])
qed

subsection \<open>Updates of a header\<close>

lemma hdr_upd_refl [simp]: "hdr_upd W s s" by (simp add: hdr_upd_def)

lemma hdr_upd_set_size:
  "hdr_upd W s s1 \<Longrightarrow> w \<in> W \<Longrightarrow> hdr_upd W s (set_size s1 (ptr w) v)"
  by (auto simp: hdr_upd_def fld_defs)

lemma hdr_upd_set_prev:
  "hdr_upd W s s1 \<Longrightarrow> w \<in> W \<Longrightarrow> hdr_upd W s (set_prev s1 (ptr w) v)"
  by (auto simp: hdr_upd_def fld_defs)

lemma hdr_upd_tail:
  "hdr_upd W s s1 \<Longrightarrow> hdr_upd W s (s1\<lparr>malloc_list_tail := t\<rparr>)"
  by (auto simp: hdr_upd_def)

lemma hdr_upd_heap_size:
  "hdr_upd W s s1 \<Longrightarrow> hdr_upd W s (s1\<lparr>heap_size := t\<rparr>)"
  by (auto simp: hdr_upd_def)

lemma lseg_hdr_upd:
  assumes "lseg s p fl h e" and "hdr_upd W s s'"
    and "\<And>f w. f \<in> set fl \<Longrightarrow> w \<in> W \<Longrightarrow> inb f \<and> (f = w \<or> apart f w)"
  shows "lseg s' p fl h e"
  using assms(1)
proof (rule lseg_frame)
  fix f assume f: "f \<in> set fl"
  have "ptr (f + 16) \<noteq> ptr w \<and> ptr (f + 16) \<noteq> ptr (w + 8)
        \<and> ptr (f + 24) \<noteq> ptr w \<and> ptr (f + 24) \<noteq> ptr (w + 8)" if "w \<in> W" for w
    using assms(3)[OF f that] by auto
  with assms(2) show "nextFree s' (ptr f) = nextFree s (ptr f) \<and> prevFree s' (ptr f) = prevFree s (ptr f)"
    by (simp add: hdr_upd_def fld_defs)
qed

lemma headers_hdr_upd:
  assumes "headers s p bs" and "hdr_upd W s s'"
    and "\<And>b w. b \<in> fst ` set bs \<Longrightarrow> w \<in> W \<Longrightarrow> apart b w"
  shows "headers s' p bs"
  using assms(1)
proof (rule headers_frame)
  fix b assume b: "b \<in> fst ` set bs"
  have "ptr b \<noteq> ptr w \<and> ptr b \<noteq> ptr (w + 8)
        \<and> ptr (b + 8) \<noteq> ptr w \<and> ptr (b + 8) \<noteq> ptr (w + 8)" if "w \<in> W" for w
    using assms(3)[OF b that] by auto
  with assms(2) show "info_size s' (ptr b) = info_size s (ptr b) \<and> info_prev s' (ptr b) = info_prev s (ptr b)"
    by (simp add: hdr_upd_def fld_defs)
qed

lemma layout_inb:
  assumes "layout L bs E" "0 < L" "E < 2 ^ 63" "b \<in> fst ` set bs"
  shows "inb b"
proof -
  from assms(4) obtain z where "(b, z) \<in> set bs" by auto
  from layout_mem[OF assms(1) this] assms(2,3) show ?thesis by (auto simp: inb_def)
qed

lemma layout_apart:
  assumes "layout L bs E" "0 < L" "E < 2 ^ 63" "b \<in> fst ` set bs" "c \<in> fst ` set bs"
  shows "b = c \<or> apart b c"
proof -
  from assms(4,5) obtain z z' where z: "(b, z) \<in> set bs" "(c, z') \<in> set bs" by auto
  from layout_sep[OF assms(1) z] layout_mem[OF assms(1) z(1)] layout_mem[OF assms(1) z(2)] assms(3)
  show ?thesis by (auto simp: apart_def)
qed

lemma arena_end: "arena_ok s \<Longrightarrow> 0 < unat (mem_start s) \<and> unat (mem_start s) + unat (heap_size s) < 2 ^ 63"
  by (auto simp: arena_ok_def)

text \<open>Changing the sign of a stored size.\<close>

lemma flip_struct:
  assumes hs: "heap_struct (pre @ (a, z) # post) fl s"
  shows "heap_struct (pre @ (a, - z) # post) fl (set_size s (ptr a) (sz (- z)))"
proof -
  let ?bs = "pre @ (a, z) # post" and ?bs' = "pre @ (a, - z) # post"
  let ?s' = "set_size s (ptr a) (sz (- z))"
  note D = heap_structD[OF hs]
  note E = arena_end[OF D(1)]
  have hu: "hdr_upd {a} s ?s'" by (simp add: hdr_upd_set_size)
  have dist: "distinct (map fst ?bs)" using layout_distinct[OF D(2)] .
  have ap: "apart b a" if "b \<in> fst ` set pre \<union> fst ` set post" for b
    using layout_apart[OF D(2) _ _ _ , of b a] E that dist by auto
  have ia: "inb a" using layout_inb[OF D(2), of a] E by simp
  have lay: "layout (unat (mem_start ?s')) ?bs' (unat (mem_start ?s') + unat (heap_size ?s'))"
    using D(2) by (auto simp: layout_append)
  from D(3) have h1: "headers s 0 pre" and h2: "info_size s (ptr a) = sz z"
    and h3: "info_prev s (ptr a) = ptr (last (0 # map fst pre))" and h4: "headers s a post"
    by (auto simp: headers_append)
  have "headers ?s' 0 pre" by (rule headers_hdr_upd[OF h1 hu]) (auto intro: ap)
  moreover have "headers ?s' a post" by (rule headers_hdr_upd[OF h4 hu]) (auto intro: ap)
  moreover have "info_size ?s' (ptr a) = sz (- z)" "info_prev ?s' (ptr a) = info_prev s (ptr a)"
    using ia by (auto simp: fld_defs)
  ultimately have hdr: "headers ?s' 0 ?bs'" using h3 by (simp add: headers_append)
  have ls: "lseg ?s' 0 fl (free_list_head ?s') NULL"
  proof -
    have "lseg ?s' 0 fl (free_list_head s) NULL"
      using D(5) hu
    proof (rule lseg_hdr_upd)
      fix f w assume "f \<in> set fl" "w \<in> {a}"
      with D(7) have "f \<in> fst ` set ?bs" "w \<in> fst ` set ?bs" by auto
      with layout_inb[OF D(2), of f] layout_apart[OF D(2), of f w] E
      show "inb f \<and> (f = w \<or> apart f w)" by simp
    qed
    then show ?thesis by simp
  qed
  have ar: "arena_ok ?s'" by (rule same_arena_ok[OF D(1)]) simp
  have tl: "malloc_list_tail ?s' = (if ?bs' = [] then NULL else ptr (fst (last ?bs')))"
    using D(4) by (cases post rule: rev_cases) auto
  have sub: "set fl \<subseteq> fst ` set ?bs'" using D(7) by auto
  show ?thesis by (rule heap_structI[OF ar lay hdr tl ls D(6) sub])
qed

subsection \<open>The next block, and merging a block with its successor\<close>

lemma ptr_unat [simp]: "ptr (unat w) = w" by (simp add: ptr_def)

lemma next_block_struct:
  assumes hs: "heap_struct (pre @ (y, zy) # post) fl s"
  shows "next_block s (ptr y) = (if post = [] then NULL else ptr (fst (hd post)))"
proof -
  note D = heap_structD[OF hs]
  note E = arena_end[OF D(1)]
  let ?L = "unat (mem_start s)" and ?H = "unat (heap_size s)"
  from D(2) obtain m where lp: "layout ?L pre m" and my: "m = y" and zy: "zy \<noteq> 0" "16 dvd zy"
    and lpost: "layout (y + 16 + nat \<bar>zy\<bar>) post (?L + ?H)" by (auto simp: layout_append)
  from D(3) have sy: "info_size s (ptr y) = sz zy" by (auto simp: headers_append)
  have le: "y + 16 + nat \<bar>zy\<bar> \<le> ?L + ?H" using layout_le[OF lpost] .
  have zb: "\<bar>zy\<bar> < 2 ^ 63" using le E by auto
  have sg: "(0 <s sz zy) = (0 < zy)" using zb by simp
  have dist: "(if 0 <s sz zy then sz zy else - sz zy) = ptr (nat \<bar>zy\<bar>)"
    unfolding sg using zy(1) by (simp add: sz_def ptr_def abs_if)
  have en: "mem_heap_lo s + heap_size s = ptr (?L + ?H)"
    by (simp add: mem_heap_lo_def ptr_add[symmetric])
  have nx: "ptr y + (sizeof_BlockInfo + ptr (nat \<bar>zy\<bar>)) = ptr (y + 16 + nat \<bar>zy\<bar>)"
    by (simp add: sizeof_BlockInfo_def ptr_def)
  have nb: "next_block s (ptr y) = (if ?L + ?H \<le> y + 16 + nat \<bar>zy\<bar> then NULL else ptr (y + 16 + nat \<bar>zy\<bar>))"
    unfolding next_block_def Let_def sy dist en nx using le E by simp
  show ?thesis
  proof (cases post)
    case Nil
    with lpost nb show ?thesis by simp
  next
    case (Cons n post')
    obtain b z where n: "n = (b, z)" by (cases n)
    from lpost Cons n have "b = y + 16 + nat \<bar>zy\<bar>" by simp
    moreover from layout_mem[OF lpost, of b z] Cons n have "b + 32 \<le> ?L + ?H" by simp
    ultimately show ?thesis using nb Cons n by simp
  qed
qed

lemma next_block_frame:
  "info_size s' b = info_size s b \<Longrightarrow> same_arena s s' \<Longrightarrow> next_block s' b = next_block s b"
  by (simp add: next_block_def same_arena_def mem_heap_lo_def)

text \<open>A block absorbs its successor.\<close>

lemma merge_struct:
  assumes hs: "heap_struct (pre @ (x, zx) # (y, zy) # post) fl s"
    and neg: "zx < 0" "zy < 0" and yfl: "y \<notin> set fl"
    and s2: "s2 = set_size s (ptr x) (sz (zx + zy - 16))"
    and s': "s' = (if post \<noteq> [] then set_prev s2 (ptr (fst (hd post))) (ptr x)
                   else s2\<lparr>malloc_list_tail := ptr x\<rparr>)"
  shows "heap_struct (pre @ (x, zx + zy - 16) # post) fl s'"
proof -
  let ?bs = "pre @ (x, zx) # (y, zy) # post" and ?bs' = "pre @ (x, zx + zy - 16) # post"
  let ?L = "unat (mem_start s)" and ?H = "unat (heap_size s)"
  note D = heap_structD[OF hs]
  note E = arena_end[OF D(1)]
  have sa: "same_arena s s'" unfolding s' s2 by simp
  have dist: "distinct (map fst ?bs)" using layout_distinct[OF D(2)] .
  have inb: "inb b" if "b \<in> fst ` set ?bs" for b
    using layout_inb[OF D(2) _ _ that] E by simp
  have ap: "b = c \<or> apart b c" if "b \<in> fst ` set ?bs" "c \<in> fst ` set ?bs" for b c
    using layout_apart[OF D(2) _ _ that] E by simp
  from D(2) obtain m where lp: "layout ?L pre m" and mx: "m = x" and zx: "zx \<noteq> 0" "16 dvd zx"
    and yx: "y = x + 16 + nat \<bar>zx\<bar>" and zy: "zy \<noteq> 0" "16 dvd zy"
    and lpost: "layout (y + 16 + nat \<bar>zy\<bar>) post (?L + ?H)" by (auto simp: layout_append)
  have eq: "x + 16 + nat \<bar>zx + zy - 16\<bar> = y + 16 + nat \<bar>zy\<bar>"
    using neg yx by (simp add: abs_if nat_add_distrib nat_diff_distrib)
  have "zx + zy - 16 \<noteq> 0" "16 dvd (zx + zy - 16)" using neg zx zy by auto
  moreover from lpost have "layout (x + 16 + nat \<bar>zx + zy - 16\<bar>) post (?L + ?H)"
    by (simp only: eq)
  ultimately have lay0: "layout ?L ?bs' (?L + ?H)"
    using lp mx by (auto simp: layout_append)
  have lay: "layout (unat (mem_start s')) ?bs' (unat (mem_start s') + unat (heap_size s'))"
    by (rule same_arena_layout[OF lay0 sa])
  have ar: "arena_ok s'" by (rule same_arena_ok[OF D(1) sa])
  let ?W = "insert x (fst ` set (take 1 post))"
  have hu: "hdr_upd ?W s s'"
    unfolding s' s2 by (cases post) (auto intro!: hdr_upd_set_prev hdr_upd_set_size hdr_upd_tail)
  have Wsub2: "?W \<subseteq> insert x (fst ` set post)" by (auto dest: in_set_takeD)
  then have Wsub: "?W \<subseteq> fst ` set ?bs" by auto
  have dpre: "fst ` set pre \<inter> insert x (insert y (fst ` set post)) = {}"
    and dxy: "x \<noteq> y" "x \<notin> fst ` set post" "y \<notin> fst ` set post" "distinct (map fst post)"
    using dist by auto
  from D(3) have h1: "headers s 0 pre" and h2: "info_prev s (ptr x) = ptr (last (0 # map fst pre))"
    and h4: "headers s y post"
    by (auto simp: headers_append)
  have "headers s' 0 pre"
  proof (rule headers_hdr_upd[OF h1 hu])
    fix b w assume b: "b \<in> fst ` set pre" and w: "w \<in> ?W"
    then have "b \<noteq> w" using dpre Wsub2 by blast
    with ap[of b w] b w Wsub show "apart b w" by auto
  qed
  moreover have "info_size s' (ptr x) = sz (zx + zy - 16)" "info_prev s' (ptr x) = info_prev s (ptr x)"
  proof -
    have "apart (fst (hd post)) x" if "post \<noteq> []"
      using ap[of "fst (hd post)" x] dxy that by (cases post) auto
    with inb[of x] show "info_size s' (ptr x) = sz (zx + zy - 16)" "info_prev s' (ptr x) = info_prev s (ptr x)"
      unfolding s' s2 by (auto simp: fld_defs)
  qed
  moreover have "headers s' x post"
  proof (cases post)
    case Nil
    then show ?thesis by simp
  next
    case (Cons n post')
    obtain b z where n: "n = (b, z)" by (cases n)
    from h4 Cons n have hb: "info_size s (ptr b) = sz z" and hp: "headers s b post'" by auto
    have bx: "apart b x" using ap[of b x] dxy Cons n by auto
    have ib: "inb b" using inb[of b] Cons n by simp
    have e: "s' = set_prev s2 (ptr b) (ptr x)" unfolding s' using Cons n by simp
    have "info_size s' (ptr b) = info_size s (ptr b)" "info_prev s' (ptr b) = ptr x"
      unfolding e s2 using bx ib by (auto simp: fld_defs)
    moreover have "headers s' b post'"
    proof (rule headers_hdr_upd[OF hp hu])
      fix c w assume c: "c \<in> fst ` set post'" and w: "w \<in> ?W"
      moreover have "b \<notin> fst ` set post'" "x \<notin> fst ` set post'" using dxy Cons n by auto
      ultimately have "c \<noteq> w" using Cons n by auto
      with ap[of c w] c w Wsub Cons show "apart c w" by auto
    qed
    ultimately show ?thesis using Cons n hb by simp
  qed
  ultimately have hdr: "headers s' 0 ?bs'" using h2 by (simp add: headers_append)
  have ls: "lseg s' 0 fl (free_list_head s') NULL"
  proof -
    have "lseg s' 0 fl (free_list_head s) NULL"
      using D(5) hu
    proof (rule lseg_hdr_upd)
      fix f w assume "f \<in> set fl" "w \<in> ?W"
      with D(7) Wsub have "f \<in> fst ` set ?bs" "w \<in> fst ` set ?bs" by auto
      with inb[of f] ap[of f w] show "inb f \<and> (f = w \<or> apart f w)" by simp
    qed
    moreover have "free_list_head s' = free_list_head s" unfolding s' s2 by simp
    ultimately show ?thesis by simp
  qed
  have tl: "malloc_list_tail s' = (if ?bs' = [] then NULL else ptr (fst (last ?bs')))"
    using D(4) unfolding s' s2 by (cases post rule: rev_cases) auto
  have sub: "set fl \<subseteq> fst ` set ?bs'" using D(7) yfl by auto
  show ?thesis by (rule heap_structI[OF ar lay hdr tl ls D(6) sub])
qed

subsection \<open>Splitting a block\<close>

text \<open>A block is cut in two.\<close>

lemma split_struct:
  assumes hs: "heap_struct (pre @ (a, z) # post) fl s"
    and r: "z < 0" "0 < r" "16 dvd r" "r + 16 < - z"
    and sp: "sp = a + 16 + nat r"
    and s2: "s2 = set_size s (ptr sp) (sz (z + r + 16))"
    and s3: "s3 = set_size s2 (ptr a) (sz r)"
    and s4: "s4 = set_prev s3 (ptr sp) (ptr a)"
    and s': "s' = (if post \<noteq> [] then set_prev s4 (ptr (fst (hd post))) (ptr sp)
                   else s4\<lparr>malloc_list_tail := ptr sp\<rparr>)"
  shows "heap_struct (pre @ (a, r) # (sp, z + r + 16) # post) fl s'"
proof -
  let ?bs = "pre @ (a, z) # post" and ?bs' = "pre @ (a, r) # (sp, z + r + 16) # post"
  let ?L = "unat (mem_start s)" and ?H = "unat (heap_size s)"
  note D = heap_structD[OF hs]
  note E = arena_end[OF D(1)]
  have sa: "same_arena s s'" unfolding s' s4 s3 s2 by simp
  from D(2) obtain m where lp: "layout ?L pre m" and ma: "m = a" and z: "z \<noteq> 0" "16 dvd z"
    and lpost: "layout (a + 16 + nat \<bar>z\<bar>) post (?L + ?H)" by (auto simp: layout_append)
  have eq: "sp + 16 + nat \<bar>z + r + 16\<bar> = a + 16 + nat \<bar>z\<bar>"
    using r sp by (simp add: abs_if nat_add_distrib nat_diff_distrib)
  have eq2: "a + 16 + nat \<bar>r\<bar> = sp" using r sp by simp
  have "z + r + 16 \<noteq> 0" "16 dvd (z + r + 16)" "r \<noteq> 0" using r z by auto
  moreover from lpost have "layout (sp + 16 + nat \<bar>z + r + 16\<bar>) post (?L + ?H)"
    by (simp only: eq)
  ultimately have lay0: "layout ?L ?bs' (?L + ?H)"
    using lp ma r(3) eq2 by (auto simp: layout_append)
  have lay: "layout (unat (mem_start s')) ?bs' (unat (mem_start s') + unat (heap_size s'))"
    by (rule same_arena_layout[OF lay0 sa])
  have ar: "arena_ok s'" by (rule same_arena_ok[OF D(1) sa])
  have dist: "distinct (map fst ?bs')" using layout_distinct[OF lay0] .
  have inb: "inb b" if "b \<in> fst ` set ?bs'" for b
    using layout_inb[OF lay0 _ _ that] E by simp
  have ap: "b = c \<or> apart b c" if "b \<in> fst ` set ?bs'" "c \<in> fst ` set ?bs'" for b c
    using layout_apart[OF lay0 _ _ that] E by simp
  let ?W = "insert sp (insert a (fst ` set (take 1 post)))"
  have hu: "hdr_upd ?W s s'"
    unfolding s' s4 s3 s2
    by (cases post) (auto intro!: hdr_upd_set_prev hdr_upd_set_size hdr_upd_tail)
  have Wsub2: "?W \<subseteq> insert sp (insert a (fst ` set post))" by (auto dest: in_set_takeD)
  then have Wsub: "?W \<subseteq> fst ` set ?bs'" by auto
  have dpre: "fst ` set pre \<inter> insert a (insert sp (fst ` set post)) = {}"
    and dxy: "a \<noteq> sp" "a \<notin> fst ` set post" "sp \<notin> fst ` set post" "distinct (map fst post)"
    using dist by auto
  have asp: "apart a sp" "inb a" "inb sp" using ap[of a sp] inb[of a] inb[of sp] dxy by auto
  from D(3) have h1: "headers s 0 pre" and h2: "info_prev s (ptr a) = ptr (last (0 # map fst pre))"
    and h4: "headers s a post"
    by (auto simp: headers_append)
  have "headers s' 0 pre"
  proof (rule headers_hdr_upd[OF h1 hu])
    fix b w assume b: "b \<in> fst ` set pre" and w: "w \<in> ?W"
    then have "b \<noteq> w" using dpre Wsub2 by blast
    with ap[of b w] b w Wsub show "apart b w" by auto
  qed
  moreover have "info_size s' (ptr a) = sz r" "info_prev s' (ptr a) = info_prev s (ptr a)"
    "info_size s' (ptr sp) = sz (z + r + 16)" "info_prev s' (ptr sp) = ptr a"
  proof -
    have "apart (fst (hd post)) a \<and> apart (fst (hd post)) sp" if "post \<noteq> []"
      using ap[of "fst (hd post)" a] ap[of "fst (hd post)" sp] dxy that by (cases post) auto
    with asp show "info_size s' (ptr a) = sz r" "info_prev s' (ptr a) = info_prev s (ptr a)"
      "info_size s' (ptr sp) = sz (z + r + 16)" "info_prev s' (ptr sp) = ptr a"
      unfolding s' s4 s3 s2 by (auto simp: fld_defs)
  qed
  moreover have "headers s' sp post"
  proof (cases post)
    case Nil
    then show ?thesis by simp
  next
    case (Cons n post')
    obtain b zb where n: "n = (b, zb)" by (cases n)
    from h4 Cons n have hb: "info_size s (ptr b) = sz zb" and hp: "headers s b post'" by auto
    have bx: "apart b a" "apart b sp" using ap[of b a] ap[of b sp] dxy Cons n by auto
    have ib: "inb b" using inb[of b] Cons n by simp
    have e: "s' = set_prev s4 (ptr b) (ptr sp)" unfolding s' using Cons n by simp
    have "info_size s' (ptr b) = info_size s (ptr b)" "info_prev s' (ptr b) = ptr sp"
      unfolding e s4 s3 s2 using bx ib asp by (auto simp: fld_defs)
    moreover have "headers s' b post'"
    proof (rule headers_hdr_upd[OF hp hu])
      fix c w assume c: "c \<in> fst ` set post'" and w: "w \<in> ?W"
      moreover have "b \<notin> fst ` set post'" "a \<notin> fst ` set post'" "sp \<notin> fst ` set post'"
        using dxy Cons n by auto
      ultimately have "c \<noteq> w" using Cons n by auto
      with ap[of c w] c w Wsub Cons show "apart c w" by auto
    qed
    ultimately show ?thesis using Cons n hb by simp
  qed
  ultimately have hdr: "headers s' 0 ?bs'" using h2 by (simp add: headers_append)
  have sub: "set fl \<subseteq> fst ` set ?bs'" using D(7) by auto
  have ls: "lseg s' 0 fl (free_list_head s') NULL"
  proof -
    have "lseg s' 0 fl (free_list_head s) NULL"
      using D(5) hu
    proof (rule lseg_hdr_upd)
      fix f w assume "f \<in> set fl" "w \<in> ?W"
      with sub Wsub have "f \<in> fst ` set ?bs'" "w \<in> fst ` set ?bs'" by auto
      with inb[of f] ap[of f w] show "inb f \<and> (f = w \<or> apart f w)" by simp
    qed
    moreover have "free_list_head s' = free_list_head s" unfolding s' s4 s3 s2 by simp
    ultimately show ?thesis by simp
  qed
  have tl: "malloc_list_tail s' = (if ?bs' = [] then NULL else ptr (fst (last ?bs')))"
    using D(4) unfolding s' s4 s3 s2 by (cases post rule: rev_cases) auto
  show ?thesis by (rule heap_structI[OF ar lay hdr tl ls D(6) sub])
qed

subsection \<open>Extending the heap\<close>

lemma hdr_upd_brk:
  "hdr_upd W s s1 \<Longrightarrow> hdr_upd W s (s1\<lparr>mem_brk := t\<rparr>)"
  by (auto simp: hdr_upd_def)

lemma unat_sz_add16:
  "0 \<le> r \<Longrightarrow> r \<le> 2 ^ 63 \<Longrightarrow> unat (sizeof_BlockInfo + sz r) = 16 + nat r"
proof -
  assume r: "0 \<le> r" "r \<le> 2 ^ 63"
  have "sizeof_BlockInfo + sz r = ptr (16 + nat r)"
    using r by (simp add: sizeof_BlockInfo_def sz_def ptr_def)
  moreover have "16 + nat r < 2 ^ 64" using r by simp
  ultimately show ?thesis by simp
qed

text \<open>A new block at the end of the heap.\<close>

lemma extend_struct:
  assumes hs: "heap_struct bs fl s" and r: "0 < r" "16 dvd r"
    and room: "mem_brk s + (16 + nat r) \<le> mem_max s"
    and E: "E = unat (mem_start s) + unat (heap_size s)"
  shows "\<exists>s'. malloc_extend s (sz r) = Inr (ptr (E + 16), s')
              \<and> heap_struct (bs @ [(E, r)]) fl s'"
proof -
  let ?L = "unat (mem_start s)" and ?H = "unat (heap_size s)"
  note D = heap_structD[OF hs]
  from D(1) have A: "0 < ?L" "16 dvd ?L" "?L + mem_max s < 2 ^ 63" "?H \<le> mem_brk s"
    "mem_brk s \<le> mem_max s" by (auto simp: arena_ok_def)
  have r16: "16 \<le> r" using r by (auto dest: zdvd_imp_le)
  have rb: "r \<le> 2 ^ 63" using room A by simp
  have un: "unat (sizeof_BlockInfo + sz r) = 16 + nat r"
    using unat_sz_add16[of r] r rb by simp
  have hs': "heap_size s + (sizeof_BlockInfo + sz r) = ptr (?H + 16 + nat r)"
    using r by (simp add: sizeof_BlockInfo_def sz_def ptr_def)
  have Hb: "?H + 16 + nat r < 2 ^ 64" using room A by simp
  have ret: "mem_heap_lo s + heap_size s = ptr E"
    unfolding E by (simp add: mem_heap_lo_def ptr_add[symmetric])
  have iE: "inb E" using A room r16 unfolding E inb_def by simp
  define s2 where "s2 = s\<lparr>heap_size := ptr (?H + 16 + nat r), mem_brk := mem_brk s + (16 + nat r)\<rparr>"
  define s' where "s' = (set_prev (set_size s2 (ptr E) (sz r)) (ptr E) (malloc_list_tail s))
                          \<lparr>malloc_list_tail := ptr E\<rparr>"
  have rq: "requestMoreSpace s (sizeof_BlockInfo + sz r) = Inr (ptr E, s2)"
    unfolding requestMoreSpace_def Let_def ret mem_sbrk_def
    using room un hs' by (simp add: s2_def)
  have me: "malloc_extend s (sz r) = Inr (ptr (E + 16), s')"
    unfolding malloc_extend_def rq using iE
    by (simp add: Let_def NULL_def s'_def s2_def sizeof_BlockInfo_def fld_defs)
  have f': "mem_start s' = mem_start s" "unat (heap_size s') = ?H + 16 + nat r"
    "mem_brk s' = mem_brk s + (16 + nat r)" "mem_max s' = mem_max s"
    "free_list_head s' = free_list_head s" "malloc_list_tail s' = ptr E"
    using Hb by (simp_all add: s'_def s2_def fld_defs)
  have ar: "arena_ok s'" using A room by (simp add: arena_ok_def f')
  have lay: "layout (unat (mem_start s')) (bs @ [(E, r)]) (unat (mem_start s') + unat (heap_size s'))"
    using D(2) r unfolding f' by (auto simp: layout_append E)
  have hu: "hdr_upd {E} s s'"
    unfolding s'_def s2_def
    by (auto intro!: hdr_upd_tail hdr_upd_set_prev hdr_upd_set_size hdr_upd_brk hdr_upd_heap_size)
  have apE: "apart b E" if "b \<in> fst ` set bs" for b
  proof -
    from that obtain z where "(b, z) \<in> set bs" by auto
    from layout_mem[OF D(2) this] iE show ?thesis unfolding E apart_def inb_def by simp
  qed
  have "headers s' 0 bs" by (rule headers_hdr_upd[OF D(3) hu]) (auto intro: apE)
  moreover have "info_size s' (ptr E) = sz r" "info_prev s' (ptr E) = malloc_list_tail s"
    using iE by (auto simp: s'_def s2_def fld_defs)
  moreover have "malloc_list_tail s = ptr (last (0 # map fst bs))"
    using D(4) by (cases bs rule: rev_cases) (auto simp: NULL_def)
  ultimately have hdr: "headers s' 0 (bs @ [(E, r)])" by (simp add: headers_append)
  have ls: "lseg s' 0 fl (free_list_head s') NULL"
    unfolding f'
    using D(5) hu
  proof (rule lseg_hdr_upd)
    fix f w assume "f \<in> set fl" "w \<in> {E}"
    with D(7) have "f \<in> fst ` set bs" "w = E" by auto
    with apE[of f] struct_inb[OF hs, of f] show "inb f \<and> (f = w \<or> apart f w)" by simp
  qed
  have tl: "malloc_list_tail s' = (if bs @ [(E, r)] = [] then NULL else ptr (fst (last (bs @ [(E, r)]))))"
    by (simp add: f')
  have sub: "set fl \<subseteq> fst ` set (bs @ [(E, r)])" using D(7) by auto
  have "heap_struct (bs @ [(E, r)]) fl s'" by (rule heap_structI[OF ar lay hdr tl ls D(6) sub])
  with me show ?thesis by blast
qed

lemma extend_exit:
  assumes r: "0 \<le> r" "r \<le> 2 ^ 63" and room: "\<not> mem_brk s + (16 + nat r) \<le> mem_max s"
  shows "malloc_extend s (sz r) = Inl Exit_sbrk_failed"
  using room unat_sz_add16[OF r]
  by (simp add: malloc_extend_def requestMoreSpace_def mem_sbrk_def Let_def)

subsection \<open>The fit search\<close>

lemma headers_mem:
  "headers s p bs \<Longrightarrow> (b, z) \<in> set bs \<Longrightarrow> info_size s (ptr b) = sz z"
  by (induction s p bs rule: headers.induct) auto

lemma struct_size:
  assumes "heap_struct bs fl s" and "(b, z) \<in> set bs"
  shows "info_size s (ptr b) = sz z \<and> - (2 ^ 63) < z \<and> z < 2 ^ 63 \<and> z \<noteq> 0 \<and> 16 dvd z"
proof -
  note D = heap_structD[OF assms(1)]
  from layout_mem[OF D(2) assms(2)] arena_end[OF D(1)] headers_mem[OF D(3) assms(2)]
  show ?thesis by auto
qed

lemma search_loop_lseg:
  assumes "lseg s p fl h NULL"
    and "\<And>f. f \<in> set fl \<Longrightarrow> inb f \<and> info_size s (ptr f) = sz (zf f)
                                \<and> - (2 ^ 63) < zf f \<and> zf f < 2 ^ 63"
    and "- (2 ^ 63) \<le> c" "c < 2 ^ 63"
  shows "searchFreeList_loop s h (sz c)
         = Some (case find (\<lambda>f. zf f \<le> c) fl of None \<Rightarrow> NULL | Some f \<Rightarrow> ptr f)"
  using assms(1,2)
proof (induction fl arbitrary: p h)
  case Nil
  then show ?case by (simp add: searchFreeList_loop.simps)
next
  case (Cons f fl)
  from Cons.prems(1) have h: "h = ptr f" and rest: "lseg s f fl (nextFree s h) NULL" by auto
  from Cons.prems(2)[of f] have f: "inb f" "info_size s (ptr f) = sz (zf f)"
    "- (2 ^ 63) < zf f" "zf f < 2 ^ 63" by auto
  have ih: "searchFreeList_loop s (nextFree s h) (sz c)
         = Some (case find (\<lambda>f. zf f \<le> c) fl of None \<Rightarrow> NULL | Some f \<Rightarrow> ptr f)"
    using Cons.IH[OF rest] Cons.prems(2) by simp
  have cmp: "(sz (zf f) \<le>s sz c) = (zf f \<le> c)" using f assms(3,4) by simp
  show ?case
    using f(1) ih by (subst searchFreeList_loop.simps) (simp add: h f(2) cmp NULL_def)
qed

lemma search_struct:
  assumes hs: "heap_struct bs fl s" and r: "0 < r" "r \<le> 2 ^ 63"
  shows "searchFreeList s (sz r) = Some (case fit bs fl r of None \<Rightarrow> NULL | Some a \<Rightarrow> ptr a)"
proof -
  note D = heap_structD[OF hs]
  have dist: "distinct (map fst bs)" using layout_distinct[OF D(2)] .
  have c: "- (2 ^ 63) \<le> - r" "- r < 2 ^ 63" using r by auto
  have loop: "searchFreeList_loop s (free_list_head s) (sz (- r))
      = Some (case find (\<lambda>f. the (map_of bs f) \<le> - r) fl of None \<Rightarrow> NULL | Some f \<Rightarrow> ptr f)"
    using D(5)
  proof (rule search_loop_lseg[OF _ _ c])
    fix f assume f: "f \<in> set fl"
    with D(7) obtain z where z: "(f, z) \<in> set bs" by auto
    with dist have "map_of bs f = Some z" by simp
    with struct_size[OF hs z] struct_fl_inb[OF hs f]
    show "inb f \<and> info_size s (ptr f) = sz (the (map_of bs f))
          \<and> - (2 ^ 63) < the (map_of bs f) \<and> the (map_of bs f) < 2 ^ 63" by simp
  qed
  show ?thesis
  proof (cases "bs = []")
    case True
    with D(4) loop show ?thesis by (simp add: searchFreeList_def fit_def Let_def)
  next
    case False
    then have lin: "(fst (last bs), snd (last bs)) \<in> set bs" by simp
    have tl: "malloc_list_tail s = ptr (fst (last bs))" using D(4) False by simp
    have itl: "inb (fst (last bs))" using struct_inb[OF hs, of "fst (last bs)"] False by simp
    from struct_size[OF hs lin]
    have "(info_size s (ptr (fst (last bs))) \<le>s sz (- r)) = (snd (last bs) \<le> - r)"
      using c by simp
    then show ?thesis
      using False loop itl by (simp add: searchFreeList_def fit_def Let_def tl NULL_def)
  qed
qed

lemma fit_Some:
  assumes "fit bs fl r = Some a" and "set fl \<subseteq> fst ` set bs" and "distinct (map fst bs)"
  shows "\<exists>z. (a, z) \<in> set bs \<and> z \<le> - r"
proof (cases "bs \<noteq> [] \<and> snd (last bs) \<le> - r")
  case True
  with assms(1) have "a = fst (last bs)" by (simp add: fit_def)
  with True have "(a, snd (last bs)) \<in> set bs" by simp
  with True show ?thesis by blast
next
  case False
  with assms(1) have "find (\<lambda>f. the (map_of bs f) \<le> - r) fl = Some a" by (simp add: fit_def)
  then have a: "a \<in> set fl" "the (map_of bs a) \<le> - r"
    by (auto simp: find_Some_iff)
  with assms(2) obtain z where z: "(a, z) \<in> set bs" by auto
  with assms(3) have "map_of bs a = Some z" by simp
  with a z show ?thesis by auto
qed

subsection \<open>The two merges of coalesce\<close>

lemma coalesce_prev_struct:
  assumes hs: "heap_struct (pre @ (p, zp) # (a, za) # post) fl s"
    and neg: "zp < 0" "za < 0" and pfl: "p \<in> set fl" and afl: "a \<notin> set fl"
    and nb: "nb = (if post = [] then NULL else ptr (fst (hd post)))"
  shows "heap_struct (pre @ (p, zp + za - 16) # post) (remove1 p fl)
           (coalesce_prev s (ptr a) (ptr p) nb)"
proof -
  let ?bs = "pre @ (p, zp) # (a, za) # post"
  let ?s1 = "removeFreeBlock s (ptr p)"
  have h1: "heap_struct ?bs (remove1 p fl) ?s1" by (rule remove_struct[OF hs pfl])
  have sp: "info_size ?s1 (ptr p) = sz zp" using struct_size[OF h1, of p zp] by simp
  have sa: "info_size ?s1 (ptr a) = sz za" using struct_size[OF h1, of a za] by simp
  have nn: "(nb \<noteq> NULL) = (post \<noteq> [])"
  proof (cases post)
    case Nil
    then show ?thesis by (simp add: nb)
  next
    case (Cons n post')
    then have "inb (fst n)" using struct_inb[OF hs, of "fst n"] by simp
    with Cons show ?thesis by (simp add: nb NULL_def)
  qed
  have an: "a \<notin> set (remove1 p fl)" using afl by (auto dest: notin_set_remove1)
  have e: "coalesce_prev s (ptr a) (ptr p) nb =
      (if post \<noteq> [] then set_prev (set_size ?s1 (ptr p) (sz (zp + za - 16))) (ptr (fst (hd post))) (ptr p)
       else (set_size ?s1 (ptr p) (sz (zp + za - 16)))\<lparr>malloc_list_tail := ptr p\<rparr>)"
    unfolding coalesce_prev_def Let_def sp sa nn
    by (simp add: sizeof_BlockInfo_def nb)
  show ?thesis
    unfolding e by (rule merge_struct[OF h1 neg an refl refl])
qed

lemma coalesce_next_struct:
  assumes hs: "heap_struct (pre @ (m, zm) # (n, zn) # post) fl s"
    and neg: "zm < 0" "zn < 0" and nfl: "n \<in> set fl"
  shows "heap_struct (pre @ (m, zm + zn - 16) # post) (remove1 n fl)
           (coalesce_next s (ptr m) (ptr n))"
proof -
  let ?bs = "pre @ (m, zm) # (n, zn) # post"
  let ?s1 = "removeFreeBlock s (ptr n)"
  let ?s2 = "set_size ?s1 (ptr m) (sz (zm + zn - 16))"
  have h1: "heap_struct ?bs (remove1 n fl) ?s1" by (rule remove_struct[OF hs nfl])
  note D = heap_structD[OF h1]
  have sm: "info_size ?s1 (ptr m) = sz zm" using struct_size[OF h1, of m zm] by simp
  have sn: "info_size ?s1 (ptr n) = sz zn" using struct_size[OF h1, of n zn] by simp
  have dist: "distinct (map fst ?bs)" using layout_distinct[OF D(2)] .
  have mn: "apart n m" using struct_apart[OF h1, of n m] dist by auto
  have "info_size ?s2 (ptr n) = info_size ?s1 (ptr n)" using mn by (simp add: fld_defs)
  then have "next_block ?s2 (ptr n) = next_block ?s1 (ptr n)"
    by (rule next_block_frame) simp
  moreover have "next_block ?s1 (ptr n) = (if post = [] then NULL else ptr (fst (hd post)))"
    using next_block_struct[of "pre @ [(m, zm)]" n zn post "remove1 n fl" ?s1] h1 by simp
  ultimately have nb: "next_block ?s2 (ptr n) = (if post = [] then NULL else ptr (fst (hd post)))"
    by simp
  have nn: "((if post = [] then NULL else ptr (fst (hd post))) \<noteq> NULL) = (post \<noteq> [])"
  proof (cases post)
    case Nil
    then show ?thesis by simp
  next
    case (Cons k post')
    then have "inb (fst k)" using struct_inb[OF hs, of "fst k"] by simp
    with Cons show ?thesis by (simp add: NULL_def)
  qed
  have nn': "n \<notin> set (remove1 n fl)" using heap_structD(6)[OF hs] by simp
  have e: "coalesce_next s (ptr m) (ptr n) =
      (if post \<noteq> [] then set_prev ?s2 (ptr (fst (hd post))) (ptr m)
       else ?s2\<lparr>malloc_list_tail := ptr m\<rparr>)"
    unfolding coalesce_next_def Let_def sm sn sz_add sizeof_BlockInfo_def sz_diff_num nb nn
    by simp
  show ?thesis
    unfolding e by (rule merge_struct[OF h1 neg nn' refl refl])
qed

subsection \<open>coalesce\<close>

lemma coalesce_struct:
  assumes hs: "heap_struct (pre @ (a, za) # post) fl s"
    and za: "za < 0" and afl: "a \<notin> set fl"
    and pin: "pfree pre \<Longrightarrow> fst (last pre) \<in> set fl"
    and nin: "nfree post \<Longrightarrow> fst (hd post) \<in> set fl"
  shows "heap_struct (co_bs pre a za post) (co_fl pre a post fl) (coalesce s (ptr a))"
proof -
  let ?bs = "pre @ (a, za) # post"
  note D = heap_structD[OF hs]
  have dist: "distinct (map fst ?bs)" using layout_distinct[OF D(2)] .
  have ia: "inb a" using struct_inb[OF hs, of a] by simp
  have sa: "info_size s (ptr a) = sz za" and zar: "- (2 ^ 63) < za" "za < 2 ^ 63"
    using struct_size[OF hs, of a za] by auto
  have go: "\<not> (ptr a = NULL \<or> 0 \<le>s info_size s (ptr a))"
    using ia za zar by (simp add: sa NULL_def)
  have pb: "info_prev s (ptr a) = ptr (last (0 # map fst pre))"
    using D(3) by (auto simp: headers_append)
  have nbv: "next_block s (ptr a) = (if post = [] then NULL else ptr (fst (hd post)))"
    by (rule next_block_struct[OF hs])
  have nbn: "(next_block s (ptr a) = NULL) = (post = [])"
  proof (cases post)
    case Nil
    then show ?thesis by (simp add: nbv)
  next
    case (Cons k post')
    then have "inb (fst k)" using struct_inb[OF hs, of "fst k"] by simp
    with Cons show ?thesis by (simp add: nbv NULL_def)
  qed
  have pbn: "(info_prev s (ptr a) = NULL) = (pre = [])"
  proof (cases pre rule: rev_cases)
    case Nil
    then show ?thesis by (simp add: pb NULL_def)
  next
    case (snoc pre' k)
    then have "inb (fst k)" using struct_inb[OF hs, of "fst k"] by simp
    with snoc show ?thesis by (simp add: pb NULL_def)
  qed
  have pf: "(info_prev s (ptr a) \<noteq> NULL \<and> info_size s (info_prev s (ptr a)) <s 0) = pfree pre"
  proof (cases pre rule: rev_cases)
    case Nil
    then show ?thesis using pbn by (simp add: pfree_def)
  next
    case (snoc pre' k)
    obtain p zp where k: "k = (p, zp)" by (cases k)
    from struct_size[OF hs, of p zp] snoc k
    have "info_size s (ptr p) = sz zp" "- (2 ^ 63) < zp" "zp < 2 ^ 63" by auto
    then show ?thesis using pbn snoc k by (simp add: pfree_def pb)
  qed
  show ?thesis
  proof (cases "pre = [] \<and> post = []")
    case True
    then have e: "coalesce s (ptr a) = insertFreeBlock s (ptr a)"
      using go nbn pbn by (simp add: coalesce_def Let_def)
    have "heap_struct ?bs (a # fl) (insertFreeBlock s (ptr a))"
      by (rule insert_struct[OF hs _ afl]) simp
    then show ?thesis using True by (simp add: e co_bs_def co_fl_def co_blk_def pfree_def nfree_def)
  next
    case False
    then have nf: "\<not> (next_block s (ptr a) = NULL \<and> info_prev s (ptr a) = NULL)"
      using nbn pbn by auto
    define s1 where "s1 = (if pfree pre
       then coalesce_prev s (ptr a) (info_prev s (ptr a)) (next_block s (ptr a)) else s)"
    define m where "m = co_blk pre a"
    define pre1 where "pre1 = (if pfree pre then butlast pre else pre)"
    define zm where "zm = (if pfree pre then snd (last pre) + za - 16 else za)"
    define fl1 where "fl1 = (if pfree pre then remove1 (fst (last pre)) fl else fl)"
    have b1: "(if pfree pre then info_prev s (ptr a) else ptr a) = ptr m"
      by (auto simp: m_def co_blk_def pb pfree_def last_map)
    have h1: "heap_struct (pre1 @ (m, zm) # post) fl1 s1" and mfl: "m \<notin> set fl1" and zmn: "zm < 0"
    proof -
      show "heap_struct (pre1 @ (m, zm) # post) fl1 s1 " 
      proof (cases "pfree pre")
        case True
        then obtain pre' k where snoc: "pre = pre' @ [k]" by (cases pre rule: rev_cases) (auto simp: pfree_def)
        obtain p zp where k: "k = (p, zp)" by (cases k)
        have zp: "zp < 0" using True snoc k by (simp add: pfree_def)
        have hs': "heap_struct (pre' @ (p, zp) # (a, za) # post) fl s" using hs snoc k by simp
        have "heap_struct (pre' @ (p, zp + za - 16) # post) (remove1 p fl)
           (coalesce_prev s (ptr a) (ptr p) (next_block s (ptr a)))"
          using coalesce_prev_struct[OF hs' zp za _ afl nbv] pin[OF True] snoc k by simp
        then show ?thesis using True snoc k
          by (simp add: s1_def pre1_def m_def zm_def fl1_def co_blk_def pb)
      next
        case False
        then show ?thesis using hs by (simp add: s1_def pre1_def m_def zm_def fl1_def co_blk_def)
      qed
      show "m \<notin> set fl1" using afl D(6) by (auto simp: m_def fl1_def co_blk_def)
      show "zm < 0" using za by (auto simp: zm_def pfree_def)
    qed
    have nfr: "(next_block s (ptr a) \<noteq> NULL \<and> info_size s1 (next_block s (ptr a)) <s 0) = nfree post"
    proof (cases post)
      case Nil
      then show ?thesis using nbn by (simp add: nfree_def)
    next
      case (Cons k post')
      obtain n zn where k: "k = (n, zn)" by (cases k)
      from struct_size[OF h1, of n zn] Cons k
      have "info_size s1 (ptr n) = sz zn" "- (2 ^ 63) < zn" "zn < 2 ^ 63" by auto
      then show ?thesis using nbn Cons k by (simp add: nfree_def nbv)
    qed
    define s2 where "s2 = (if nfree post then coalesce_next s1 (ptr m) (next_block s (ptr a)) else s1)"
    define post2 where "post2 = (if nfree post then tl post else post)"
    define zm2 where "zm2 = zm + (if nfree post then snd (hd post) - 16 else 0)"
    define fl2 where "fl2 = (if nfree post then remove1 (fst (hd post)) fl1 else fl1)"
    have e: "coalesce s (ptr a) = insertFreeBlock s2 (ptr m)"
      by (simp only: coalesce_def Let_def if_not_P[OF go] if_not_P[OF nf] pf
            s1_def[symmetric] b1 nfr s2_def[symmetric])
    have h2: "heap_struct (pre1 @ (m, zm2) # post2) fl2 s2" and mfl2: "m \<notin> set fl2"
    proof -
      show "heap_struct (pre1 @ (m, zm2) # post2) fl2 s2"
      proof (cases "nfree post")
        case True
        then obtain k post' where Cons: "post = k # post'" by (cases post) (auto simp: nfree_def)
        obtain n zn where k: "k = (n, zn)" by (cases k)
        have zn: "zn < 0" using True Cons k by (simp add: nfree_def)
        have hs': "heap_struct (pre1 @ (m, zm) # (n, zn) # post') fl1 s1" using h1 Cons k by simp
        have "n \<in> set fl" using nin[OF True] Cons k by simp
        moreover have "n \<notin> fst ` set pre" using dist Cons k by auto
        then have "pre \<noteq> [] \<Longrightarrow> n \<noteq> fst (last pre)" by (metis last_in_set image_eqI)
        ultimately have nfl1: "n \<in> set fl1" by (auto simp: fl1_def pfree_def)
        have "heap_struct (pre1 @ (m, zm + zn - 16) # post') (remove1 n fl1)
           (coalesce_next s1 (ptr m) (ptr n))"
          by (rule coalesce_next_struct[OF hs' zmn zn nfl1])
        then show ?thesis using True Cons k
          by (simp add: s2_def post2_def zm2_def fl2_def nbv add_diff_eq)
      next
        case False
        then show ?thesis using h1 by (simp add: s2_def post2_def zm2_def fl2_def)
      qed
      show "m \<notin> set fl2" using mfl by (auto simp: fl2_def dest: notin_set_remove1)
    qed
    have "heap_struct (pre1 @ (m, zm2) # post2) (m # fl2) (insertFreeBlock s2 (ptr m))"
      by (rule insert_struct[OF h2 _ mfl2]) simp
    then show ?thesis
      unfolding e co_bs_def co_fl_def pre1_def m_def zm2_def zm_def post2_def fl2_def fl1_def Let_def .
  qed
qed

subsection \<open>mm_free\<close>

lemma frees_append [simp]: "frees (xs @ ys) = frees xs @ frees ys"
  by (simp add: frees_def)

lemma frees_Cons [simp]: "frees ((b, z) # xs) = (if z < 0 then b # frees xs else frees xs)"
  by (simp add: frees_def)

lemma frees_Nil [simp]: "frees [] = []"
  by (simp add: frees_def)

lemma frees_subset: "set (frees bs) \<subseteq> fst ` set bs"
  by (auto simp: frees_def)

lemma ptr_payload_sub: "ptr (a + 16) - sizeof_BlockInfo = ptr a"
  by (simp add: ptr_def sizeof_BlockInfo_def)

lemma mm_free_ok:
  assumes ok: "heap_ok (pre @ (a, c) # post) fl s" and c: "0 < c"
  shows "heap_ok (co_bs pre a (- c) post) (co_fl pre a post fl) (mm_free s (ptr (a + 16)))"
proof -
  let ?bs = "pre @ (a, c) # post"
  from ok have hs: "heap_struct ?bs fl s" and fr: "set fl = set (frees ?bs)"
    by (auto simp: heap_ok_def)
  note D = heap_structD[OF hs]
  have dist: "distinct (map fst ?bs)" using layout_distinct[OF D(2)] .
  have ia: "inb a" using struct_inb[OF hs, of a] by simp
  have sa: "info_size s (ptr a) = sz c" using struct_size[OF hs, of a c] by simp
  let ?s1 = "set_size s (ptr a) (sz (- c))"
  have e: "mm_free s (ptr (a + 16)) = coalesce ?s1 (ptr a)"
    using ia by (simp add: mm_free_def NULL_def ptr_payload_sub Let_def sa)
  have h1: "heap_struct (pre @ (a, - c) # post) fl ?s1" by (rule flip_struct[OF hs])
  have dpre: "a \<notin> fst ` set pre" "a \<notin> fst ` set post" "fst ` set pre \<inter> fst ` set post = {}"
    "distinct (map fst pre)" "distinct (map fst post)"
    using dist by auto
  have afl: "a \<notin> set fl"
    using fr c dpre frees_subset[of pre] frees_subset[of post] by auto
  have pin: "fst (last pre) \<in> set fl" if "pfree pre"
  proof -
    from that obtain pre' p zp where "pre = pre' @ [(p, zp)]" "zp < 0"
      by (cases pre rule: rev_cases) (auto simp: pfree_def)
    then show ?thesis using fr by simp
  qed
  have nin: "fst (hd post) \<in> set fl" if "nfree post"
  proof -
    from that obtain post' n zn where "post = (n, zn) # post'" "zn < 0"
      by (cases post) (auto simp: nfree_def)
    then show ?thesis using fr by simp
  qed
  have h2: "heap_struct (co_bs pre a (- c) post) (co_fl pre a post fl) (coalesce ?s1 (ptr a))"
    using coalesce_struct[OF h1 _ afl pin nin] c by simp
  have fl: "set fl = set (frees pre) \<union> set (frees post)" using fr c by simp
  have dfl: "distinct fl" using D(6) .
  have "set (co_fl pre a post fl) = set (frees (co_bs pre a (- c) post))"
  proof (cases "pfree pre")
    case True
    then obtain pre' p zp where pre: "pre = pre' @ [(p, zp)]" and zp: "zp < 0"
      by (cases pre rule: rev_cases) (auto simp: pfree_def)
    have pn: "p \<notin> set (frees pre')" "p \<notin> set (frees post)"
      using dpre frees_subset[of pre'] frees_subset[of post] pre by auto
    show ?thesis
    proof (cases "nfree post")
      case nf: True
      then obtain post' n zn where post: "post = (n, zn) # post'" and zn: "zn < 0"
        by (cases post) (auto simp: nfree_def)
      have nn: "n \<notin> set (frees pre')" "n \<notin> set (frees post')" "n \<noteq> p"
        using dpre frees_subset[of pre'] frees_subset[of post'] pre post by auto
      show ?thesis using True nf pre post zp zn c fl dfl pn nn
        by (auto simp: co_fl_def co_bs_def co_blk_def Let_def)
    next
      case nf: False
      then have "frees post = frees (tl post) \<or> post = []" "post = [] \<or> 0 \<le> snd (hd post)"
        by (cases post; auto simp: nfree_def)+
      show ?thesis using True nf pre zp c fl dfl pn
        by (auto simp: co_fl_def co_bs_def co_blk_def Let_def)
    qed
  next
    case False
    show ?thesis
    proof (cases "nfree post")
      case nf: True
      then obtain post' n zn where post: "post = (n, zn) # post'" and zn: "zn < 0"
        by (cases post) (auto simp: nfree_def)
      have nn: "n \<notin> set (frees pre)" "n \<notin> set (frees post')"
        using dpre frees_subset[of pre] frees_subset[of post'] post by auto
      show ?thesis using False nf post zn c fl dfl nn
        by (auto simp: co_fl_def co_bs_def co_blk_def Let_def)
    next
      case nf: False
      show ?thesis using False nf c fl
        by (auto simp: co_fl_def co_bs_def co_blk_def Let_def)
    qed
  qed
  with h2 show ?thesis by (simp add: heap_ok_def e)
qed

subsection \<open>mm_malloc on a block of the free list\<close>

lemma ptr_div16: "k < 2 ^ 64 \<Longrightarrow> ptr k div 16 = ptr (k div 16)"
proof -
  assume k: "k < 2 ^ 64"
  have "unat (ptr k div 16) = k div 16" using k by (simp add: unat_div)
  then have "ptr (unat (ptr k div 16)) = ptr (k div 16)" by simp
  then show ?thesis by simp
qed

lemma round_request_ptr:
  assumes "unat n + 15 < 2 ^ 64"
  shows "round_request n = ptr (16 * ((unat n + 15) div 16))"
proof -
  have "n + 16 - 1 = ptr (unat n + 15)" by (simp add: ptr_def)
  then have "(n + 16 - 1) div 16 = ptr ((unat n + 15) div 16)"
    using ptr_div16[OF assms] by simp
  then show ?thesis by (simp add: round_request_def ALIGNMENT_def ptr_def)
qed

lemma round_request_sz:
  assumes "n \<noteq> 0" and "unat n \<le> 2 ^ 63"
  shows "\<exists>r. round_request n = sz r \<and> 0 < r \<and> r \<le> 2 ^ 63 \<and> 16 dvd r
             \<and> r = int (16 * ((unat n + 15) div 16))"
proof -
  let ?k = "16 * ((unat n + 15) div 16)"
  have 1: "round_request n = ptr ?k" using assms(2) by (intro round_request_ptr) simp
  have "0 < unat n" using assms(1) by (simp add: unat_gt_0)
  then have "0 < ?k" by simp
  moreover have "?k \<le> 2 ^ 63" using assms(2) by simp
  ultimately show ?thesis using 1 by (simp add: ptr_def sz_def)
qed

lemma remove1_frees:
  assumes "distinct fl" and "set fl = insert a A" and "a \<notin> A"
  shows "set (remove1 a fl) = A"
  using assms by auto

lemma malloc_exact_ok:
  assumes ok: "heap_ok (pre @ (a, z) # post) fl s" and z: "z < 0"
  shows "fst (malloc_exact s (ptr a)) = ptr (a + 16)
         \<and> heap_ok (pre @ (a, - z) # post) (remove1 a fl) (snd (malloc_exact s (ptr a)))"
proof -
  let ?bs = "pre @ (a, z) # post"
  from ok have hs: "heap_struct ?bs fl s" and fr: "set fl = set (frees ?bs)"
    by (auto simp: heap_ok_def)
  note D = heap_structD[OF hs]
  have dist: "distinct (map fst ?bs)" using layout_distinct[OF D(2)] .
  have sa: "info_size s (ptr a) = sz z" using struct_size[OF hs, of a z] by simp
  have afl: "a \<in> set fl" using fr z by simp
  have h1: "heap_struct (pre @ (a, - z) # post) fl (set_size s (ptr a) (sz (- z)))"
    by (rule flip_struct[OF hs])
  have h2: "heap_struct (pre @ (a, - z) # post) (remove1 a fl)
      (removeFreeBlock (set_size s (ptr a) (sz (- z))) (ptr a))"
    by (rule remove_struct[OF h1 afl])
  have an: "a \<notin> set (frees pre) \<union> set (frees post)"
    using dist frees_subset[of pre] frees_subset[of post] by auto
  have "set (remove1 a fl) = set (frees pre) \<union> set (frees post)"
    by (rule remove1_frees[OF D(6) _ an]) (use fr z in simp)
  then have "set (remove1 a fl) = set (frees (pre @ (a, - z) # post))" using z by simp
  with h2 show ?thesis
    by (simp add: malloc_exact_def Let_def sa heap_ok_def sizeof_BlockInfo_def)
qed

lemma malloc_split_ok:
  assumes ok: "heap_ok (pre @ (a, z) # post) fl s"
    and r: "z < 0" "0 < r" "16 dvd r" "r + 16 < - z"
  shows "fst (malloc_split s (ptr a) (sz r)) = ptr (a + 16)
         \<and> heap_ok (pre @ (a, r) # (a + 16 + nat r, z + r + 16) # post)
              ((a + 16 + nat r) # remove1 a fl) (snd (malloc_split s (ptr a) (sz r)))"
proof -
  let ?bs = "pre @ (a, z) # post"
  let ?sp = "a + 16 + nat r"
  let ?bs' = "pre @ (a, r) # (?sp, z + r + 16) # post"
  from ok have hs: "heap_struct ?bs fl s" and fr: "set fl = set (frees ?bs)"
    by (auto simp: heap_ok_def)
  note D = heap_structD[OF hs]
  have dist: "distinct (map fst ?bs)" using layout_distinct[OF D(2)] .
  have afl: "a \<in> set fl" using fr r by simp
  let ?s1 = "removeFreeBlock s (ptr a)"
  have h1: "heap_struct ?bs (remove1 a fl) ?s1" by (rule remove_struct[OF hs afl])
  have sa: "info_size ?s1 (ptr a) = sz z" using struct_size[OF h1, of a z] by simp
  have nbv: "next_block s (ptr a) = (if post = [] then NULL else ptr (fst (hd post)))"
    by (rule next_block_struct[OF hs])
  have nn: "((if post = [] then NULL else ptr (fst (hd post))) \<noteq> NULL) = (post \<noteq> [])"
  proof (cases post)
    case Nil
    then show ?thesis by simp
  next
    case (Cons k post')
    then have "inb (fst k)" using struct_inb[OF hs, of "fst k"] by simp
    with Cons show ?thesis by (simp add: NULL_def)
  qed
  have spv: "ptr a + (sz r + sizeof_BlockInfo) = ptr ?sp"
    using r by (simp add: sz_def ptr_def sizeof_BlockInfo_def)
  have szv: "sz z + sz r + sizeof_BlockInfo = sz (z + r + 16)"
    by (simp add: sz_def sizeof_BlockInfo_def)
  define s2 where "s2 = set_size ?s1 (ptr ?sp) (sz (z + r + 16))"
  define s3 where "s3 = set_size s2 (ptr a) (sz r)"
  define s4 where "s4 = set_prev s3 (ptr ?sp) (ptr a)"
  define s5 where "s5 = (if post \<noteq> [] then set_prev s4 (ptr (fst (hd post))) (ptr ?sp)
                   else s4\<lparr>malloc_list_tail := ptr ?sp\<rparr>)"
  have h5: "heap_struct ?bs' (remove1 a fl) s5"
    by (rule split_struct[OF h1 r refl s2_def s3_def s4_def s5_def])
  have e: "malloc_split s (ptr a) (sz r) = (ptr (a + 16), insertFreeBlock s5 (ptr ?sp))"
    unfolding malloc_split_def Let_def nbv nn spv sa szv
    by (simp add: s5_def s4_def s3_def s2_def sizeof_BlockInfo_def)
  have dist': "distinct (map fst ?bs')" using layout_distinct[OF heap_structD(2)[OF h5]] .
  have "?sp \<notin> fst ` set ?bs" using dist' by auto
  with D(7) have spn: "?sp \<notin> set (remove1 a fl)" by (auto dest: notin_set_remove1)
  have h6: "heap_struct ?bs' (?sp # remove1 a fl) (insertFreeBlock s5 (ptr ?sp))"
    by (rule insert_struct[OF h5 _ spn]) simp
  have an: "a \<notin> set (frees pre) \<union> set (frees post)"
    using dist frees_subset[of pre] frees_subset[of post] by auto
  have "set (remove1 a fl) = set (frees pre) \<union> set (frees post)"
    by (rule remove1_frees[OF D(6) _ an]) (use fr r in simp)
  then have "set (?sp # remove1 a fl) = set (frees ?bs')" using r by auto
  with h6 show ?thesis by (simp add: e heap_ok_def)
qed

subsection \<open>The traversals on a well-formed heap\<close>

lemma heap_end_ptr:
  "mem_heap_lo s + heap_size s = ptr (unat (mem_start s) + unat (heap_size s))"
  by (simp add: mem_heap_lo_def ptr_add[symmetric])

lemma free_walk_lseg:
  "lseg s p fl h NULL \<Longrightarrow> (\<And>f. f \<in> set fl \<Longrightarrow> inb f) \<Longrightarrow>
   free_list_from s h = Some (map ptr fl)"
proof (induction fl arbitrary: p h)
  case Nil
  then show ?case by (simp add: free_list_from.simps)
next
  case (Cons f fl)
  from Cons.prems(1) have h: "h = ptr f" and rest: "lseg s f fl (nextFree s h) NULL" by auto
  have "inb f" using Cons.prems(2) by simp
  then have hn: "h \<noteq> NULL" by (simp add: h NULL_def)
  have ih: "free_list_from s (nextFree s h) = Some (map ptr fl)"
    using Cons.IH[OF rest] Cons.prems(2) by simp
  show ?case using hn ih by (subst free_list_from.simps) (simp add: h)
qed

lemma free_walk_struct:
  "heap_struct bs fl s \<Longrightarrow> free_list s = Some (map ptr fl)"
  unfolding free_list_def
  using free_walk_lseg[OF heap_structD(5)] struct_fl_inb by blast

lemma chain_walk_suffix:
  "heap_struct (pre @ post) fl s \<Longrightarrow>
   chain_from s (if post = [] then NULL else ptr (fst (hd post))) = Some (map (ptr \<circ> fst) post)"
proof (induction post arbitrary: pre)
  case Nil
  then show ?case by (simp add: chain_from.simps)
next
  case (Cons k post)
  obtain b z where k: "k = (b, z)" by (cases k)
  have hs: "heap_struct (pre @ (b, z) # post) fl s" using Cons.prems k by simp
  note D = heap_structD[OF hs]
  note E = arena_end[OF D(1)]
  have ib: "inb b" using struct_inb[OF hs, of b] by simp
  have "b + 32 \<le> unat (mem_start s) + unat (heap_size s)"
    using layout_mem[OF D(2), of b z] by simp
  then have lt: "ptr b < mem_heap_lo s + heap_size s"
    unfolding heap_end_ptr using E ib by (simp add: inb_def)
  have nb: "next_block s (ptr b) = (if post = [] then NULL else ptr (fst (hd post)))"
    by (rule next_block_struct[OF hs])
  have ih: "chain_from s (if post = [] then NULL else ptr (fst (hd post))) = Some (map (ptr \<circ> fst) post)"
    using Cons.IH[of "pre @ [(b, z)]"] hs by simp
  show ?case
    using ib lt by (subst chain_from.simps) (simp add: k nb ih NULL_def)
qed

lemma chain_walk_struct:
  assumes hs: "heap_struct bs fl s"
  shows "block_chain s = Some (map (ptr \<circ> fst) bs)"
proof (cases bs)
  case Nil
  with heap_structD(2)[OF hs] have "unat (heap_size s) = 0" by simp
  then have "heap_size s = 0" by (simp add: unat_eq_0)
  then show ?thesis using Nil
    by (subst block_chain_def, subst chain_from.simps) (simp add: mem_heap_lo_def)
next
  case (Cons k bs')
  obtain b z where k: "k = (b, z)" by (cases k)
  from heap_structD(2)[OF hs] Cons k have "b = unat (mem_start s)" by simp
  then have "mem_heap_lo s = ptr (fst (hd bs))" using Cons k by (simp add: mem_heap_lo_def)
  with chain_walk_suffix[of "[]" bs fl s] hs Cons show ?thesis
    by (simp add: block_chain_def)
qed

subsection \<open>The cases of mm_malloc\<close>

lemma split_test:
  assumes "0 < r" "r \<le> 2 ^ 63" "z < 0" "- (2 ^ 63) < z"
  shows "(sz r + sizeof_BlockInfo < - sz z) = (r + 16 < - z)"
proof -
  have 1: "sz r + sizeof_BlockInfo = ptr (nat r + 16)"
    using assms by (simp add: sz_def ptr_def sizeof_BlockInfo_def)
  have 2: "- sz z = ptr (nat (- z))" using assms by (simp add: sz_def ptr_def)
  have "nat r + 16 < 2 ^ 64" "nat (- z) < 2 ^ 64" using assms by auto
  then have "(ptr (nat r + 16) < ptr (nat (- z))) = (nat r + 16 < nat (- z))" by simp
  then show ?thesis unfolding 1 2 using assms by auto
qed

lemma mm_malloc_cases:
  assumes ok: "heap_ok bs fl s" and n: "n \<noteq> 0" "unat n \<le> 2 ^ 63"
    and rdef: "r = int (16 * ((unat n + 15) div 16))"
    and E: "E = unat (mem_start s) + unat (heap_size s)"
  shows "(fit bs fl r = None \<and> mm_malloc s n = Some (Inl Exit_sbrk_failed))
    \<or> (fit bs fl r = None \<and>
        (\<exists>s'. mm_malloc s n = Some (Inr (ptr (E + 16), s')) \<and> heap_ok (bs @ [(E, r)]) fl s'))
    \<or> (\<exists>pre a z post s'. fit bs fl r = Some a \<and> bs = pre @ (a, z) # post \<and> z \<le> - r
          \<and> r + 16 < - z
          \<and> mm_malloc s n = Some (Inr (ptr (a + 16), s'))
          \<and> s' = snd (malloc_split s (ptr a) (round_request n))
          \<and> heap_ok (pre @ (a, r) # (a + 16 + nat r, z + r + 16) # post)
                ((a + 16 + nat r) # remove1 a fl) s')
    \<or> (\<exists>pre a z post s'. fit bs fl r = Some a \<and> bs = pre @ (a, z) # post \<and> z \<le> - r
          \<and> \<not> r + 16 < - z
          \<and> mm_malloc s n = Some (Inr (ptr (a + 16), s'))
          \<and> heap_ok (pre @ (a, - z) # post) (remove1 a fl) s')"
proof -
  from ok have hs: "heap_struct bs fl s" and fr: "set fl = set (frees bs)"
    by (auto simp: heap_ok_def)
  note D = heap_structD[OF hs]
  have dist: "distinct (map fst bs)" using layout_distinct[OF D(2)] .
  from round_request_sz[OF n] rdef have rr: "round_request n = sz r"
    and r: "0 < r" "r \<le> 2 ^ 63" "16 dvd r" by auto
  have se: "searchFreeList s (sz r) = Some (case fit bs fl r of None \<Rightarrow> NULL | Some a \<Rightarrow> ptr a)"
    by (rule search_struct[OF hs r(1,2)])
  show ?thesis
  proof (cases "fit bs fl r")
    case None
    then have mm: "mm_malloc s n = Some (malloc_extend s (sz r))"
      using n(1) se by (simp add: mm_malloc_def Let_def rr)
    show ?thesis
    proof (cases "mem_brk s + (16 + nat r) \<le> mem_max s")
      case True
      from extend_struct[OF hs r(1,3) True E] obtain s' where
        s': "malloc_extend s (sz r) = Inr (ptr (E + 16), s')" "heap_struct (bs @ [(E, r)]) fl s'"
        by blast
      have "heap_ok (bs @ [(E, r)]) fl s'" using s'(2) fr r by (simp add: heap_ok_def)
      with s'(1) mm None show ?thesis by simp
    next
      case False
      have "malloc_extend s (sz r) = Inl Exit_sbrk_failed"
        using extend_exit[OF _ r(2) False] r by simp
      with mm None show ?thesis by simp
    qed
  next
    case (Some a)
    from fit_Some[OF Some D(7) dist] obtain z where z: "(a, z) \<in> set bs" "z \<le> - r" by blast
    then obtain pre post where bs: "bs = pre @ (a, z) # post" by (auto dest: split_list)
    have zn: "z < 0" using z r by simp
    have sa: "info_size s (ptr a) = sz z" and zr: "- (2 ^ 63) < z"
      using struct_size[OF hs z(1)] by auto
    have ia: "inb a" using struct_inb[OF hs, of a] z(1) by force
    have ok': "heap_ok (pre @ (a, z) # post) fl s" using ok bs by simp
    have st: "(sz r + sizeof_BlockInfo < - info_size s (ptr a)) = (r + 16 < - z)"
      unfolding sa by (rule split_test[OF r(1,2) zn zr])
    show ?thesis
    proof (cases "r + 16 < - z")
      case True
      have mm: "mm_malloc s n = Some (Inr (malloc_split s (ptr a) (sz r)))"
        using n(1) se Some ia st True by (simp add: mm_malloc_def Let_def rr NULL_def)
      obtain p s' where ms: "malloc_split s (ptr a) (sz r) = (p, s')" by force
      from malloc_split_ok[OF ok' zn r(1,3) True] ms
      have p: "p = ptr (a + 16)"
        and ok2: "heap_ok (pre @ (a, r) # (a + 16 + nat r, z + r + 16) # post)
                ((a + 16 + nat r) # remove1 a fl) s'" by auto
      have "\<exists>pre a z post s'. fit bs fl r = Some a \<and> bs = pre @ (a, z) # post \<and> z \<le> - r
          \<and> r + 16 < - z
          \<and> mm_malloc s n = Some (Inr (ptr (a + 16), s'))
          \<and> s' = snd (malloc_split s (ptr a) (round_request n))
          \<and> heap_ok (pre @ (a, r) # (a + 16 + nat r, z + r + 16) # post)
                ((a + 16 + nat r) # remove1 a fl) s'"
        by (intro exI[of _ pre] exI[of _ a] exI[of _ z] exI[of _ post] exI[of _ s'])
           (use Some bs z(2) True mm ms p ok2 rr in simp)
      then show ?thesis by simp
    next
      case False
      have mm: "mm_malloc s n = Some (Inr (malloc_exact s (ptr a)))"
        using n(1) se Some ia st False by (simp add: mm_malloc_def Let_def rr NULL_def)
      obtain p s' where ms: "malloc_exact s (ptr a) = (p, s')" by force
      from malloc_exact_ok[OF ok' zn] ms
      have p: "p = ptr (a + 16)"
        and ok2: "heap_ok (pre @ (a, - z) # post) (remove1 a fl) s'" by auto
      have "\<exists>pre a z post s'. fit bs fl r = Some a \<and> bs = pre @ (a, z) # post \<and> z \<le> - r
          \<and> \<not> r + 16 < - z
          \<and> mm_malloc s n = Some (Inr (ptr (a + 16), s'))
          \<and> heap_ok (pre @ (a, - z) # post) (remove1 a fl) s'"
        by (intro exI[of _ pre] exI[of _ a] exI[of _ z] exI[of _ post] exI[of _ s'])
           (use Some bs z(2) False mm ms p ok2 in simp)
      then show ?thesis by simp
    qed
  qed
qed

subsection \<open>The size of a merged block\<close>

lemma prev_facts:
  assumes hs: "heap_struct (pre @ (a, za) # post) fl s"
  shows "info_prev s (ptr a) = ptr (last (0 # map fst pre))"
    and "(info_prev s (ptr a) \<noteq> NULL \<and> info_size s (info_prev s (ptr a)) <s 0) = pfree pre"
    and "pre \<noteq> [] \<Longrightarrow> sint (info_size s (info_prev s (ptr a))) = snd (last pre)"
proof -
  note D = heap_structD[OF hs]
  show pb: "info_prev s (ptr a) = ptr (last (0 # map fst pre))"
    using D(3) by (auto simp: headers_append)
  show "(info_prev s (ptr a) \<noteq> NULL \<and> info_size s (info_prev s (ptr a)) <s 0) = pfree pre"
  proof (cases pre rule: rev_cases)
    case Nil
    then show ?thesis by (simp add: pfree_def pb NULL_def)
  next
    case (snoc pre' k)
    obtain p zp where k: "k = (p, zp)" by (cases k)
    from struct_size[OF hs, of p zp] snoc k
    have "info_size s (ptr p) = sz zp" "- (2 ^ 63) < zp" "zp < 2 ^ 63" by auto
    moreover have "inb p" using struct_inb[OF hs, of p] snoc k by simp
    ultimately show ?thesis using snoc k by (simp add: pfree_def pb NULL_def)
  qed
  show "sint (info_size s (info_prev s (ptr a))) = snd (last pre)" if "pre \<noteq> []"
  proof -
    from that obtain pre' p zp where snoc: "pre = pre' @ [(p, zp)]"
      by (cases pre rule: rev_cases) auto
    from struct_size[OF hs, of p zp] snoc
    have "info_size s (ptr p) = sz zp" "- (2 ^ 63) < zp" "zp < 2 ^ 63" by auto
    then show ?thesis using snoc by (simp add: pb)
  qed
qed

lemma next_facts:
  assumes hs: "heap_struct (pre @ (a, za) # post) fl s"
  shows "next_block s (ptr a) = (if post = [] then NULL else ptr (fst (hd post)))"
    and "(next_block s (ptr a) \<noteq> NULL \<and> info_size s (next_block s (ptr a)) <s 0) = nfree post"
    and "post \<noteq> [] \<Longrightarrow> sint (info_size s (next_block s (ptr a))) = snd (hd post)"
proof -
  show nb: "next_block s (ptr a) = (if post = [] then NULL else ptr (fst (hd post)))"
    by (rule next_block_struct[OF hs])
  show "(next_block s (ptr a) \<noteq> NULL \<and> info_size s (next_block s (ptr a)) <s 0) = nfree post"
  proof (cases post)
    case Nil
    then show ?thesis by (simp add: nfree_def nb)
  next
    case (Cons k post')
    obtain p zp where k: "k = (p, zp)" by (cases k)
    from struct_size[OF hs, of p zp] Cons k
    have "info_size s (ptr p) = sz zp" "- (2 ^ 63) < zp" "zp < 2 ^ 63" by auto
    moreover have "inb p" using struct_inb[OF hs, of p] Cons k by simp
    ultimately show ?thesis using Cons k by (simp add: nfree_def nb NULL_def)
  qed
  show "sint (info_size s (next_block s (ptr a))) = snd (hd post)" if "post \<noteq> []"
  proof -
    from that obtain post' p zp where Cons: "post = (p, zp) # post'" by (cases post) auto
    from struct_size[OF hs, of p zp] Cons
    have "info_size s (ptr p) = sz zp" "- (2 ^ 63) < zp" "zp < 2 ^ 63" by auto
    then show ?thesis using Cons by (simp add: nb)
  qed
qed

lemma co_bs_mem: "(co_blk pre a, (if pfree pre then snd (last pre) + za - 16 else za)
        + (if nfree post then snd (hd post) - 16 else 0)) \<in> set (co_bs pre a za post)"
  by (simp add: co_bs_def)

text \<open>
  C6. \<open>s0\<close> is a well-formed heap in which the block at \<open>a\<close> is allocated with
  capacity \<open>c\<close>; \<open>s\<close> is \<open>s0\<close> with the size of that block negated, the state in which
  \<open>mm_free\<close> calls \<open>coalesce\<close>. After \<open>coalesce\<close>, the stored size of the merged block
  (the predecessor when it is free, the freed block otherwise) is, as a signed number
  and without wrap-around: the stored size of the freed block, plus the stored size of
  the free predecessor minus 16 when the predecessor is absorbed, plus the stored size of
  the free successor minus 16 when the successor is absorbed. The sizes are negative, so
  each merge adds the neighbour's capacity and the 16 bytes of the header that
  disappears.
\<close>

theorem C6_merged_size:
  assumes ok: "heap_ok bs fl s0" and blk: "(a, c) \<in> set bs" "0 < c"
  shows "let b = ptr a;
             s = set_size s0 b (- info_size s0 b);
             previousBlock = info_prev s b;
             nextBlock = next_block s b;
             prev_is_free = (previousBlock \<noteq> NULL \<and> info_size s previousBlock <s 0);
             next_is_free = (nextBlock \<noteq> NULL \<and> info_size s nextBlock <s 0);
             merged = (if prev_is_free then previousBlock else b)
         in mm_free s0 (b + sizeof_BlockInfo) = coalesce s b
            \<and> sint (info_size s b) = - c
            \<and> sint (info_size (coalesce s b) merged) =
                (if prev_is_free
                 then sint (info_size s previousBlock) + sint (info_size s b) - 16
                 else sint (info_size s b))
                + (if next_is_free then sint (info_size s nextBlock) - 16 else 0)"
proof -
  from blk(1) obtain pre post where bs: "bs = pre @ (a, c) # post" by (auto dest: split_list)
  from ok bs have ok': "heap_ok (pre @ (a, c) # post) fl s0" by simp
  then have hs: "heap_struct (pre @ (a, c) # post) fl s0" and fr: "set fl = set (frees (pre @ (a, c) # post))"
    by (auto simp: heap_ok_def)
  have ia: "inb a" using struct_inb[OF hs, of a] by simp
  have sa0: "info_size s0 (ptr a) = sz c" using struct_size[OF hs, of a c] by simp
  define s where "s = set_size s0 (ptr a) (- info_size s0 (ptr a))"
  have s_eq: "s = set_size s0 (ptr a) (sz (- c))" by (simp add: s_def sa0)
  have h1: "heap_struct (pre @ (a, - c) # post) fl s" unfolding s_eq by (rule flip_struct[OF hs])
  have pa: "ptr a + sizeof_BlockInfo = ptr (a + 16)" by (simp add: sizeof_BlockInfo_def)
  have e: "mm_free s0 (ptr a + sizeof_BlockInfo) = coalesce s (ptr a)"
    unfolding pa using ia by (simp add: mm_free_def NULL_def ptr_payload_sub Let_def s_def)
  have okf: "heap_ok (co_bs pre a (- c) post) (co_fl pre a post fl) (coalesce s (ptr a))"
    using mm_free_ok[OF ok' blk(2)] e by (simp add: pa)
  then have h2: "heap_struct (co_bs pre a (- c) post) (co_fl pre a post fl) (coalesce s (ptr a))"
    by (simp add: heap_ok_def)
  note P = prev_facts[OF h1] and N = next_facts[OF h1]
  have sab: "sint (info_size s (ptr a)) = - c"
    using struct_size[OF h1, of a "- c"] by simp
  let ?zm = "(if pfree pre then snd (last pre) + (- c) - 16 else - c)
        + (if nfree post then snd (hd post) - 16 else 0)"
  have mg: "(if pfree pre then info_prev s (ptr a) else ptr a) = ptr (co_blk pre a)"
    by (auto simp: co_blk_def P(1) pfree_def last_map)
  have "sint (info_size (coalesce s (ptr a)) (ptr (co_blk pre a))) = ?zm"
    using struct_size[OF h2 co_bs_mem[of pre a "- c" post]] by simp
  moreover have "pfree pre \<Longrightarrow> sint (info_size s (info_prev s (ptr a))) = snd (last pre)"
    using P(3) by (simp add: pfree_def)
  moreover have "nfree post \<Longrightarrow> sint (info_size s (next_block s (ptr a))) = snd (hd post)"
    using N(3) by (simp add: nfree_def)
  ultimately show ?thesis
    unfolding Let_def s_def[symmetric] P(2) N(2) mg
    using e sab by auto
qed

subsection \<open>The two blocks of a split\<close>

lemma map_ptr_remove1:
  "inb a \<Longrightarrow> (\<And>f. f \<in> set fl \<Longrightarrow> inb f) \<Longrightarrow>
   map ptr (remove1 a fl) = remove1 (ptr a) (map ptr fl)"
proof (induction fl)
  case Nil
  then show ?case by simp
next
  case (Cons f fl)
  have "inb f" using Cons.prems(2) by simp
  then have "(ptr a = ptr f) = (a = f)" using Cons.prems(1) by (simp add: inb_def)
  then show ?case using Cons by auto
qed

lemma sint_cap_bound: "nat (- sint (w :: 64 word)) \<le> 2 ^ 63"
proof -
  have "- (2 ^ 63) \<le> sint w" using sint_ge[of w] by simp
  then show ?thesis by simp
qed

lemma roundup_ge: "(k::nat) \<le> 16 * ((k + 15) div 16)"
  by arith

lemma chain_succ_mid:
  "a \<notin> fst ` set pre \<Longrightarrow>
   chain_succ (pre @ (a, z) # post) a = (if post = [] then None else Some (fst (hd post)))"
proof (induction pre)
  case Nil
  then show ?case by (cases post) auto
next
  case (Cons k pre)
  then show ?case by (cases pre) auto
qed

text \<open>
  C4. In a well-formed heap, let a call \<open>mm_malloc s n\<close> with \<open>n \<noteq> 0\<close> be such that the
  fit search returns a free block \<open>b\<close> whose capacity exceeds \<open>n\<close> rounded up to a
  multiple of 16, plus 16 for one header. Then the call returns the payload pointer
  \<open>b + 16\<close> in the state that \<open>malloc_split\<close> computes, and in that state: the stored
  size of \<open>b\<close> is the rounded size, which is positive; the block at
  \<open>b + reqSize + 16\<close> carries the remainder as a negative size (the old stored size
  plus the rounded size plus 16) and has \<open>b\<close> as its chain predecessor; the free list is
  the old one with \<open>b\<close> removed and the new fragment in front, and \<open>b\<close> is removed
  in the state before any header is written. The block \<open>b\<close> is one of the blocks \<open>bs\<close> of
  the heap; when it has a successor in \<open>bs\<close>, that is the block at the address where the
  old payload of \<open>b\<close> ends, and after the call its chain predecessor is the new fragment;
  when \<open>b\<close> is the last block of \<open>bs\<close>, the chain tail is the new fragment. The successor
  is the block that \<open>next_block\<close> returns.
\<close>

theorem C4_split:
  assumes ok: "heap_ok bs fl s"
    and n: "n \<noteq> 0"
    and found: "searchFreeList s (round_request n) = Some b" "b \<noteq> NULL"
    and free: "info_size s b <s 0"
    and big: "16 * ((unat n + 15) div 16) + 16 < nat (- sint (info_size s b))"
  shows "let reqSize = round_request n;
             splitBlock = b + (reqSize + sizeof_BlockInfo);
             s' = snd (malloc_split s b reqSize)
         in mm_malloc s n = Some (Inr (b + sizeof_BlockInfo, s'))
            \<and> unat reqSize = 16 * ((unat n + 15) div 16)
            \<and> info_size s' b = reqSize \<and> 0 <s reqSize
            \<and> info_size s' splitBlock = info_size s b + reqSize + sizeof_BlockInfo
            \<and> sint (info_size s' splitBlock) = sint (info_size s b) + int (unat reqSize) + 16
            \<and> info_size s' splitBlock <s 0
            \<and> info_prev s' splitBlock = b
            \<and> free_list (removeFreeBlock s b) = map_option (remove1 b) (free_list s)
            \<and> free_list s' = map_option (\<lambda>xs. splitBlock # remove1 b xs) (free_list s)
            \<and> (unat b, sint (info_size s b)) \<in> set bs
            \<and> (case chain_succ bs (unat b) of
                  None \<Rightarrow> malloc_list_tail s' = splitBlock
                | Some x \<Rightarrow> x = unat b + 16 + nat (- sint (info_size s b))
                            \<and> info_prev s' (ptr x) = splitBlock
                            \<and> info_prev s (ptr x) = b)
            \<and> next_block s b = (case chain_succ bs (unat b) of None \<Rightarrow> NULL | Some x \<Rightarrow> ptr x)"
proof -
  define r where "r = int (16 * ((unat n + 15) div 16))"
  from ok have hs: "heap_struct bs fl s" by (simp add: heap_ok_def)
  have nb: "unat n \<le> 2 ^ 63"
    using big sint_cap_bound[of "info_size s b"] roundup_ge[of "unat n"] by linarith
  from round_request_sz[OF n nb] have rr: "round_request n = sz r"
    and r: "0 < r" "r \<le> 2 ^ 63" "16 dvd r" by (auto simp: r_def)
  have rlt: "r < 2 ^ 63" using big sint_cap_bound[of "info_size s b"] by (simp add: r_def)
  have ur: "unat (round_request n) = 16 * ((unat n + 15) div 16)"
    using round_request_ptr[of n] nb rlt by (simp add: r_def)
  from search_struct[OF hs r(1,2)] found rr
  obtain a where fa: "fit bs fl r = Some a" and ba: "b = ptr a"
    by (cases "fit bs fl r") auto
  from fit_Some[OF fa heap_structD(7)[OF hs] layout_distinct[OF heap_structD(2)[OF hs]]]
  obtain z0 where z0: "(a, z0) \<in> set bs" by blast
  have sz0: "info_size s (ptr a) = sz z0" "- (2 ^ 63) < z0" "z0 < 2 ^ 63"
    using struct_size[OF hs z0] by auto
  have sz0s: "sint (info_size s (ptr a)) = z0" using sz0 by simp
  have big': "r + 16 < - z0" using big by (simp add: ba sz0s r_def)
  have dist: "distinct (map fst bs)" using layout_distinct[OF heap_structD(2)[OF hs]] .
  from mm_malloc_cases[OF ok n nb r_def refl] fa
  obtain pre z post s' where bs: "bs = pre @ (a, z) # post"
    and mm: "mm_malloc s n = Some (Inr (ptr (a + 16), s'))"
    and s': "s' = snd (malloc_split s (ptr a) (round_request n))"
    and ok2: "heap_ok (pre @ (a, r) # (a + 16 + nat r, z + r + 16) # post)
                ((a + 16 + nat r) # remove1 a fl) s'"
  proof (elim disjE exE conjE, goal_cases)
    case (1)
    then show ?case by simp
  next
    case (2 s')
    then show ?case by simp
  next
    case (3 pre a' z post s')
    then show ?case by simp
  next
    case (4 pre a' z post s')
    then have "(a, z) \<in> set bs" by simp
    with z0 dist have "z = z0" by (meson eq_key_imp_eq_value)
    with 4 big' show ?case by simp
  qed
  have "(a, z) \<in> set bs" using bs by simp
  with z0 dist have zz: "z = z0" by (meson eq_key_imp_eq_value)
  let ?sp = "a + 16 + nat r"
  let ?bs' = "pre @ (a, r) # (?sp, z + r + 16) # post"
  from ok2 have h2: "heap_struct ?bs' (?sp # remove1 a fl) s'" by (simp add: heap_ok_def)
  have hs0: "heap_struct (pre @ (a, z) # post) fl s" using hs bs by simp
  have spv: "b + (round_request n + sizeof_BlockInfo) = ptr ?sp"
    using r by (simp add: ba rr sz_def ptr_def sizeof_BlockInfo_def)
  have c1: "mm_malloc s n = Some (Inr (b + sizeof_BlockInfo, s'))"
    using mm by (simp add: ba sizeof_BlockInfo_def)
  have c3: "info_size s' b = round_request n" "0 <s round_request n"
    using struct_size[OF h2, of a r] r rlt by (simp_all add: ba rr)
  have ssp: "info_size s' (ptr ?sp) = sz (z + r + 16)" "- (2 ^ 63) < z + r + 16" "z + r + 16 < 2 ^ 63"
    using struct_size[OF h2, of ?sp "z + r + 16"] by auto
  have c4: "info_size s' (ptr ?sp) = info_size s b + round_request n + sizeof_BlockInfo"
    by (simp add: ssp ba sz0 zz rr sizeof_BlockInfo_def)
  have c5: "sint (info_size s' (ptr ?sp)) = sint (info_size s b) + int (unat (round_request n)) + 16"
    using ssp sz0s zz by (simp add: ba ur r_def)
  have c6: "info_size s' (ptr ?sp) <s 0" using ssp big' zz by simp
  have c7: "info_prev s' (ptr ?sp) = b"
    using heap_structD(3)[OF h2] by (auto simp: headers_append ba)
  have ia: "inb a" using struct_inb[OF hs, of a] z0 by force
  have ifl: "\<And>f. f \<in> set fl \<Longrightarrow> inb f" using struct_fl_inb[OF hs] .
  have afl: "a \<in> set fl" using ok bs big' r zz by (simp add: heap_ok_def)
  have w0: "free_list s = Some (map ptr fl)" by (rule free_walk_struct[OF hs])
  have c8: "free_list (removeFreeBlock s b) = map_option (remove1 b) (free_list s)"
    using free_walk_struct[OF remove_struct[OF hs afl]] map_ptr_remove1[OF ia ifl]
    by (simp add: w0 ba)
  have c9: "free_list s' = map_option (\<lambda>xs. ptr ?sp # remove1 b xs) (free_list s)"
    using free_walk_struct[OF h2] map_ptr_remove1[OF ia ifl] by (simp add: w0 ba)
  note N = next_facts[OF hs0]
  have upa: "unat (ptr a) = a" using ia by (simp add: inb_def)
  have ua: "unat b = a" using upa by (simp add: ba)
  have c10: "(unat b, sint (info_size s b)) \<in> set bs" using z0 sz0s by (simp add: ba upa)
  have "a \<notin> fst ` set pre" using dist bs by auto
  then have cs: "chain_succ bs a = (if post = [] then None else Some (fst (hd post)))"
    unfolding bs by (rule chain_succ_mid)
  have c11: "(case chain_succ bs (unat b) of
                  None \<Rightarrow> malloc_list_tail s' = ptr ?sp
                | Some x \<Rightarrow> x = unat b + 16 + nat (- sint (info_size s b))
                            \<and> info_prev s' (ptr x) = ptr ?sp
                            \<and> info_prev s (ptr x) = b)"
  proof (cases post)
    case Nil
    then show ?thesis using cs heap_structD(4)[OF h2] by (simp add: ba upa)
  next
    case (Cons k post')
    obtain x zx where k: "k = (x, zx)" by (cases k)
    have "x = a + 16 + nat \<bar>z\<bar>"
      using heap_structD(2)[OF hs0] Cons k by (auto simp: layout_append)
    moreover have "nat \<bar>z\<bar> = nat (- sint (info_size s b))"
      using big' r zz sz0s by (simp add: ba)
    moreover have "info_prev s' (ptr x) = ptr ?sp"
      using heap_structD(3)[OF h2] Cons k by (auto simp: headers_append)
    moreover have "info_prev s (ptr x) = b"
      using heap_structD(3)[OF hs0] Cons k by (auto simp: headers_append ba)
    ultimately show ?thesis using cs Cons k by (simp add: ba upa)
  qed
  have c12: "next_block s b = (case chain_succ bs (unat b) of None \<Rightarrow> NULL | Some x \<Rightarrow> ptr x)"
    using N(1) cs by (simp add: ba upa)
  have s'b: "snd (malloc_split s b (round_request n)) = s'" by (simp add: s' ba)
  show ?thesis
    unfolding Let_def spv s'b by (intro conjI c1 ur c3 c4 c5 c6 c7 c8 c9 c10 c11 c12)
qed

subsection \<open>Adjacent free blocks\<close>

lemma allocs_simps [simp]:
  "allocs [] = []"
  "allocs ((b, z) # bs) = (if 0 < z then b # allocs bs else allocs bs)"
  "allocs (xs @ ys) = allocs xs @ allocs ys"
  by (simp_all add: allocs_def)

lemma allocs_subset: "set (allocs bs) \<subseteq> fst ` set bs"
  by (auto simp: allocs_def)

lemma naf_append:
  "naf (xs @ ys) \<longleftrightarrow>
     naf xs \<and> naf ys \<and> (xs = [] \<or> ys = [] \<or> \<not> (snd (last xs) < 0 \<and> snd (hd ys) < 0))"
proof (induction xs rule: naf.induct)
  case (1 x y bs)
  then show ?case by auto
next
  case (2 x)
  then show ?case by (cases ys) auto
next
  case 3
  then show ?case by simp
qed

lemma naf_Cons:
  "naf (x # ys) \<longleftrightarrow> naf ys \<and> (ys = [] \<or> \<not> (snd x < 0 \<and> snd (hd ys) < 0))"
  by (cases ys) auto

lemma naf_extend: "naf bs \<Longrightarrow> 0 < r \<Longrightarrow> naf (bs @ [(E, r)])"
  by (simp add: naf_append)

lemma naf_split:
  "naf (pre @ (a, z) # post) \<Longrightarrow> z < 0 \<Longrightarrow> 0 < r \<Longrightarrow>
   naf (pre @ (a, r) # (sp, z') # post)"
  by (auto simp: naf_append naf_Cons)

lemma naf_exact:
  "naf (pre @ (a, z) # post) \<Longrightarrow> z < 0 \<Longrightarrow> naf (pre @ (a, - z) # post)"
  by (auto simp: naf_append naf_Cons)

lemma naf_butlast: "naf xs \<Longrightarrow> naf (butlast xs)"
  by (cases xs rule: rev_cases) (auto simp: naf_append)

lemma naf_tl: "naf xs \<Longrightarrow> naf (tl xs)"
  by (cases xs) (auto simp: naf_Cons)

lemma naf_coalesce:
  assumes "naf (pre @ (a, c) # post)"
  shows "naf (co_bs pre a za post)"
proof -
  from assms have np: "naf pre" and nq: "naf post" by (auto simp: naf_append naf_Cons)
  have 1: "butlast pre = [] \<or> \<not> snd (last (butlast pre)) < 0" if "pfree pre"
  proof (cases pre rule: rev_cases)
    case Nil
    then show ?thesis by simp
  next
    case (snoc pre' k)
    with np that show ?thesis by (auto simp: naf_append pfree_def)
  qed
  have 2: "tl post = [] \<or> \<not> snd (hd (tl post)) < 0" if "nfree post"
  proof (cases post)
    case Nil
    then show ?thesis by simp
  next
    case (Cons k post')
    with nq that show ?thesis by (auto simp: naf_Cons nfree_def)
  qed
  have 3: "pre = [] \<or> \<not> snd (last pre) < 0" if "\<not> pfree pre"
    using that by (auto simp: pfree_def)
  have 4: "post = [] \<or> \<not> snd (hd post) < 0" if "\<not> nfree post"
    using that by (auto simp: nfree_def)
  show ?thesis
    using np nq 1 2 3 4 naf_butlast[OF np] naf_tl[OF nq]
    by (auto simp: co_bs_def naf_append naf_Cons)
qed

lemma allocs_coalesce:
  assumes "0 < c" "za < 0" and dist: "distinct (map fst (pre @ (a, c) # post))"
  shows "set (allocs (co_bs pre a za post)) = set (allocs (pre @ (a, c) # post)) - {a}"
proof -
  have a: "a \<notin> set (allocs pre)" "a \<notin> set (allocs post)"
    using dist allocs_subset[of pre] allocs_subset[of post] by auto
  have p: "allocs (butlast pre) = allocs pre" if "pfree pre"
    using that by (cases pre rule: rev_cases) (auto simp: pfree_def)
  have q: "allocs (tl post) = allocs post" if "nfree post"
    using that by (cases post) (auto simp: nfree_def)
  have zm: "(if pfree pre then snd (last pre) + za - 16 else za)
        + (if nfree post then snd (hd post) - 16 else 0) < 0"
    using assms(2) by (auto simp: pfree_def nfree_def)
  have "allocs (co_bs pre a za post)
        = allocs (if pfree pre then butlast pre else pre) @ allocs (if nfree post then tl post else post)"
    unfolding co_bs_def using zm by simp
  then show ?thesis using a p q assms(1) by auto
qed

subsection \<open>Clients that free what they were given\<close>

lemma payload_inj: "inb a \<Longrightarrow> inb b \<Longrightarrow> (payload a = payload b) = (a = b)"
  by (simp add: payload_def inb_def)

lemma payload_not_null: "inb a \<Longrightarrow> payload a \<noteq> NULL"
  by (simp add: payload_def NULL_def)

lemma init_inv:
  assumes "arena_base s"
  shows "client_inv [] [] (snd (mm_init s), [])"
  using assms
  by (simp add: client_inv_def heap_ok_def heap_struct_def arena_ok_def arena_base_def
        mm_init_def NULL_def)

lemma heap_ok_arena_base: "heap_ok bs fl s \<Longrightarrow> arena_base s"
  by (simp add: heap_ok_def heap_struct_def arena_ok_def arena_base_def)

lemma live_add:
  assumes ok: "heap_ok bs' fl' s'"
    and live: "distinct live" "set live \<subseteq> payload ` set (allocs bs)"
    and al: "set (allocs bs') = insert a (set (allocs bs))" and an: "a \<notin> set (allocs bs)"
  shows "distinct (payload a # live) \<and> set (payload a # live) \<subseteq> payload ` set (allocs bs')"
proof -
  from ok have hs: "heap_struct bs' fl' s'" by (simp add: heap_ok_def)
  have inb: "inb b" if "b \<in> set (allocs bs')" for b
    using struct_inb[OF hs, of b] allocs_subset[of bs'] that by auto
  have "payload a \<notin> set live"
  proof
    assume "payload a \<in> set live"
    with live(2) obtain b where b: "b \<in> set (allocs bs)" "payload a = payload b" by auto
    with al have "inb a" "inb b" using inb by auto
    with b(2) have "a = b" by (simp add: payload_inj)
    with b(1) an show False by simp
  qed
  with live al show ?thesis by auto
qed

lemma live_remove:
  assumes hs: "heap_struct bs fl s"
    and live: "distinct live" "set live \<subseteq> payload ` set (allocs bs)"
    and al: "A = set (allocs bs) - {a}" and a: "a \<in> set (allocs bs)"
  shows "distinct (remove1 (payload a) live) \<and> set (remove1 (payload a) live) \<subseteq> payload ` A"
proof -
  have inb: "inb b" if "b \<in> set (allocs bs)" for b
    using struct_inb[OF hs, of b] allocs_subset[of bs] that by auto
  have "q \<in> payload ` A" if q: "q \<in> set live" "q \<noteq> payload a" for q
  proof -
    from q(1) live(2) obtain b where b: "b \<in> set (allocs bs)" "q = payload b" by auto
    with q(2) have "b \<noteq> a" by auto
    with b al show ?thesis by auto
  qed
  with live(1) show ?thesis by auto
qed

lemma client_step_inv:
  assumes inv: "client_inv bs fl c" and small: "small_call x"
    and step: "client_step c x = Some c'"
  shows "\<exists>bs' fl'. client_inv bs' fl' c'"
proof -
  obtain s live where c: "c = (s, live)" by (cases c)
  from inv c have ok: "heap_ok bs fl s" and nf: "naf bs" and dl: "distinct live"
    and sl: "set live \<subseteq> payload ` set (allocs bs)" by (auto simp: client_inv_def)
  from ok have hs: "heap_struct bs fl s" by (simp add: heap_ok_def)
  have dist: "distinct (map fst bs)" using layout_distinct[OF heap_structD(2)[OF hs]] .
  show ?thesis
  proof (cases x)
    case Init
    with step c have "c' = (snd (mm_init s), [])" by simp
    with init_inv[OF heap_ok_arena_base[OF ok]] show ?thesis by blast
  next
    case (Malloc n)
    show ?thesis
    proof (cases "n = 0")
      case True
      with step c Malloc have "c' = c" by (simp add: mm_malloc_def)
      with inv show ?thesis by blast
    next
      case False
      from small Malloc have nb: "unat n \<le> 2 ^ 63" by simp
      define r where "r = int (16 * ((unat n + 15) div 16))"
      define E where "E = unat (mem_start s) + unat (heap_size s)"
      from round_request_sz[OF False nb] have r: "0 < r" by (simp add: r_def)
      have fin: "\<exists>bs' fl'. client_inv bs' fl' c'"
        if mm: "mm_malloc s n = Some (Inr (payload a, s'))" and ok': "heap_ok bs' fl' s'"
          and nf': "naf bs'" and al: "set (allocs bs') = insert a (set (allocs bs))"
          and an: "a \<notin> set (allocs bs)" for a s' bs' fl'
      proof -
        from ok' have hs': "heap_struct bs' fl' s'" by (simp add: heap_ok_def)
        have "a \<in> fst ` set bs'" using al allocs_subset[of bs'] by auto
        then have "payload a \<noteq> NULL" using struct_inb[OF hs'] payload_not_null by blast
        with step c Malloc mm have c': "c' = (s', payload a # live)" by simp
        from live_add[OF ok' dl sl al an] ok' nf' show ?thesis
          unfolding c' client_inv_def by auto
      qed
      from mm_malloc_cases[OF ok False nb r_def E_def]
      show ?thesis
      proof (elim disjE exE conjE, goal_cases)
        case 1
        with step c Malloc show ?case by simp
      next
        case (2 s')
        from 2(3) have "heap_struct (bs @ [(E, r)]) fl s'" by (simp add: heap_ok_def)
        from layout_distinct[OF heap_structD(2)[OF this]]
        have "distinct (map fst (bs @ [(E, r)]))" .
        then have "E \<notin> set (allocs bs)" using allocs_subset[of bs] by auto
        then show ?case
          using fin[of E s' "bs @ [(E, r)]" fl] 2 r nf by (simp add: payload_def naf_extend)
      next
        case (3 pre a z post s')
        have zn: "z < 0" using 3(3) r by simp
        have "a \<notin> set (allocs bs)"
          using dist 3(2) zn allocs_subset[of pre] allocs_subset[of post] by auto
        moreover have "naf (pre @ (a, r) # (a + 16 + nat r, z + r + 16) # post)"
          using nf 3(2) zn r by (simp add: naf_split)
        ultimately show ?case
          using fin[of a s' "pre @ (a, r) # (a + 16 + nat r, z + r + 16) # post"
                  "(a + 16 + nat r) # remove1 a fl"] 3 r zn
          by (auto simp: payload_def)
      next
        case (4 pre a z post s')
        have zn: "z < 0" using 4(3) r by simp
        have "a \<notin> set (allocs bs)"
          using dist 4(2) zn allocs_subset[of pre] allocs_subset[of post] by auto
        moreover have "naf (pre @ (a, - z) # post)"
          using nf 4(2) zn by (simp add: naf_exact)
        ultimately show ?case
          using fin[of a s' "pre @ (a, - z) # post" "remove1 a fl"] 4 zn
          by (auto simp: payload_def)
      qed
    qed
  next
    case (Free p)
    show ?thesis
    proof (cases "p = NULL")
      case True
      with step c Free have "c' = c" by (simp add: mm_free_def)
      with inv show ?thesis by blast
    next
      case False
      with step c Free have pin: "p \<in> set live" and c': "c' = (mm_free s p, remove1 p live)"
        by (auto split: if_splits)
      from pin sl obtain a where a: "a \<in> set (allocs bs)" "p = payload a" by auto
      then obtain cc where cc: "(a, cc) \<in> set bs" "0 < cc" by (auto simp: allocs_def)
      then obtain pre post where bs: "bs = pre @ (a, cc) # post" by (auto dest: split_list)
      have ok1: "heap_ok (co_bs pre a (- cc) post) (co_fl pre a post fl) (mm_free s p)"
        using mm_free_ok[of pre a cc post fl s] ok bs cc(2) a(2) by (simp add: payload_def)
      have nf1: "naf (co_bs pre a (- cc) post)" using naf_coalesce[of pre a cc post] nf bs by simp
      have al1: "set (allocs (co_bs pre a (- cc) post)) = set (allocs bs) - {a}"
        using allocs_coalesce[of cc "- cc" pre a post] cc(2) dist bs by simp
      from live_remove[OF hs dl sl al1 a(1)] ok1 nf1 show ?thesis
        unfolding c' client_inv_def a(2) by auto
    qed
  qed
qed

lemma client_run_inv:
  "client_inv bs fl c \<Longrightarrow> list_all small_call calls \<Longrightarrow> client_run c calls = Some c' \<Longrightarrow>
   \<exists>bs' fl'. client_inv bs' fl' c'"
proof (induction calls arbitrary: bs fl c)
  case Nil
  then show ?case by auto
next
  case (Cons x calls)
  from Cons.prems(3) obtain c1 where c1: "client_step c x = Some c1" "client_run c1 calls = Some c'"
    by (auto split: option.splits)
  from client_step_inv[OF Cons.prems(1) _ c1(1)] Cons.prems(2)
  obtain bs1 fl1 where "client_inv bs1 fl1 c1" by auto
  from Cons.IH[OF this _ c1(2)] Cons.prems(2) show ?case by simp
qed

subsection \<open>The invariants on the state itself\<close>

lemma is_free_struct:
  "heap_struct bs fl s \<Longrightarrow> (b, z) \<in> set bs \<Longrightarrow> is_free s (ptr b) = (z < 0)"
  using struct_size[of bs fl s b z] by (simp add: is_free_def)

lemma adjacent_free_naf:
  "adjacent_free (map (\<lambda>x. snd x < 0) bs) = (\<not> naf bs)"
  by (induction bs rule: naf.induct) auto

lemma no_adjacent_free_ok:
  assumes "heap_ok bs fl s" and "naf bs"
  shows "no_adjacent_free s"
proof -
  from assms(1) have hs: "heap_struct bs fl s" by (simp add: heap_ok_def)
  have m: "map (is_free s) (map (ptr \<circ> fst) bs) = map (\<lambda>x. snd x < 0) bs"
    using is_free_struct[OF hs] by (auto simp: o_def)
  show ?thesis
    unfolding no_adjacent_free_def chain_walk_struct[OF hs] option.case m adjacent_free_naf
    using assms(2) by simp
qed

lemma frees_mem:
  assumes "distinct (map fst bs)" and "(b, z) \<in> set bs"
  shows "(b \<in> set (frees bs)) = (z < 0)"
proof
  assume "b \<in> set (frees bs)"
  then obtain z' where "(b, z') \<in> set bs" "z' < 0" by (auto simp: frees_def)
  with assms show "z < 0" by (auto dest: eq_key_imp_eq_value)
next
  assume "z < 0"
  with assms(2) have "(b, z) \<in> {x \<in> set bs. snd x < 0}" by simp
  then have "fst (b, z) \<in> fst ` {x \<in> set bs. snd x < 0}" by (rule imageI)
  then show "b \<in> set (frees bs)" by (simp add: frees_def)
qed

lemma int_unat_le: "unat (r :: 64 word) \<le> 2 ^ 63 \<Longrightarrow> int (unat r) \<le> 2 ^ 63"
  by (metis of_nat_le_iff of_nat_numeral of_nat_power)

lemma ptr_inj_inb: "inb a \<Longrightarrow> inb b \<Longrightarrow> (ptr a = ptr b) = (a = b)"
  by (simp add: inb_def)

lemma ptr_in_image:
  assumes "inb a" and "\<And>f. f \<in> set xs \<Longrightarrow> inb f"
  shows "(ptr a \<in> ptr ` set xs) = (a \<in> set xs)"
proof
  assume "ptr a \<in> ptr ` set xs"
  then obtain f where f: "f \<in> set xs" "ptr a = ptr f" by auto
  with ptr_inj_inb[OF assms(1) assms(2)[OF f(1)]] have "a = f" by simp
  with f show "a \<in> set xs" by simp
qed auto

lemma sign_matches_free_list_ok:
  assumes "heap_ok bs fl s"
  shows "sign_matches_free_list s"
proof -
  from assms have hs: "heap_struct bs fl s" and fr: "set fl = set (frees bs)"
    by (auto simp: heap_ok_def)
  note D = heap_structD[OF hs]
  have dist: "distinct (map fst bs)" using layout_distinct[OF D(2)] .
  have ifl: "\<And>f. f \<in> set fl \<Longrightarrow> inb f" using struct_fl_inb[OF hs] .
  have "inj_on ptr (set fl)"
    using ptr_inj_inb ifl by (auto simp: inj_on_def)
  then have d: "distinct (map ptr fl)" using D(6) by (simp add: distinct_map)
  have sub: "list_all (\<lambda>f. f \<in> set (map (ptr \<circ> fst) bs)) (map ptr fl)"
    using D(7) by (auto simp: list_all_iff)
  have "(ptr b \<in> set (map ptr fl)) = is_free s (ptr b)" if "(b, z) \<in> set bs" for b z
  proof -
    have "inb b" using struct_inb[OF hs, of b] that by force
    then have "(ptr b \<in> set (map ptr fl)) = (b \<in> set fl)" using ptr_in_image[OF _ ifl] by simp
    also have "\<dots> = (z < 0)"
      using frees_mem[OF dist that] fr by simp
    finally show ?thesis using is_free_struct[OF hs that] by simp
  qed
  then have "\<forall>x\<in>set bs. (ptr (fst x) \<in> set (map ptr fl)) = is_free s (ptr (fst x))"
    by (metis prod.collapse)
  then have "list_all (\<lambda>b. (b \<in> set (map ptr fl)) = is_free s b) (map (ptr \<circ> fst) bs)"
    by (simp add: list_all_iff)
  with d sub show ?thesis
    by (simp add: sign_matches_free_list_def chain_walk_struct[OF hs] free_walk_struct[OF hs])
qed

text \<open>After \<open>mm_init\<close> and any sequence of calls in which every requested size is at most
  \<open>2 ^ 63\<close> and every freed pointer is one that \<open>mm_malloc\<close> returned and that was not freed
  since, both invariants hold.\<close>

theorem bounded_requests_keep_invariants:
  assumes "arena_base s0" and "list_all small_call calls"
    and "client_run (s0, live0) (Init # calls) = Some (s, live)"
  shows "sign_matches_free_list s \<and> no_adjacent_free s"
proof -
  from assms(3) have run: "client_run (snd (mm_init s0), []) calls = Some (s, live)" by simp
  from client_run_inv[OF init_inv[OF assms(1)] assms(2) run]
  obtain bs fl where "client_inv bs fl (s, live)" by blast
  then have "heap_ok bs fl s" "naf bs" by (auto simp: client_inv_def)
  then show ?thesis using sign_matches_free_list_ok no_adjacent_free_ok by blast
qed

lemma layout_aligned:
  "layout a bs e \<Longrightarrow> 16 dvd a \<Longrightarrow> (b, z) \<in> set bs \<Longrightarrow> 16 dvd b"
proof (induction a bs e rule: layout.induct)
  case (1 a e)
  then show ?case by simp
next
  case (2 a b0 z0 bs e)
  have "16 dvd nat \<bar>z0\<bar>" using 2(2) by (auto simp: nat_dvd_iff)
  then have "16 dvd a + 16 + nat \<bar>z0\<bar>" using 2(3) by simp
  with 2 show ?case by auto
qed

lemma struct_aligned:
  assumes "heap_struct bs fl s" and "b \<in> fst ` set bs"
  shows "16 dvd unat (payload b)"
proof -
  note D = heap_structD[OF assms(1)]
  from assms(2) obtain z where z: "(b, z) \<in> set bs" by auto
  have "16 dvd b" using layout_aligned[OF D(2) _ z] D(1) by (simp add: arena_ok_def)
  moreover have "inb b" using struct_inb[OF assms] .
  ultimately show ?thesis by (simp add: payload_def inb_def)
qed

text \<open>For a request of at most \<open>2 ^ 63\<close> bytes on a well-formed heap, the size is rounded up to
  the next multiple of 16 and the payload returned is non-null and 16-byte aligned.\<close>

theorem malloc_aligned_bounded:
  assumes ok: "heap_ok bs fl s" and n: "n \<noteq> 0" "unat n \<le> 2 ^ 63"
    and mm: "mm_malloc s n = Some (Inr (p, s'))"
  shows "p \<noteq> NULL \<and> 16 dvd unat p
         \<and> 16 dvd unat (round_request n)
         \<and> unat n \<le> unat (round_request n) \<and> unat (round_request n) < unat n + 16"
proof -
  define r where "r = int (16 * ((unat n + 15) div 16))"
  from round_request_ptr[of n] n(2)
  have "unat (round_request n) = 16 * ((unat n + 15) div 16)" by simp
  then have rq: "16 dvd unat (round_request n) \<and> unat n \<le> unat (round_request n)
    \<and> unat (round_request n) < unat n + 16" by (simp, arith)
  have "\<exists>a bs' fl'. p = payload a \<and> heap_struct bs' fl' s' \<and> a \<in> fst ` set bs'"
    using mm_malloc_cases[OF ok n r_def refl] mm
  proof (elim disjE exE conjE, goal_cases)
    case 1
    then show ?case by simp
  next
    case (2 s2)
    then show ?case
      by (intro exI[of _ "unat (mem_start s) + unat (heap_size s)"]
            exI[of _ "bs @ [(unat (mem_start s) + unat (heap_size s), r)]"] exI[of _ fl])
         (simp add: payload_def heap_ok_def)
  next
    case (3 pre a z post s2)
    then show ?case
      by (intro exI[of _ a] exI[of _ "pre @ (a, r) # (a + 16 + nat r, z + r + 16) # post"]
            exI[of _ "(a + 16 + nat r) # remove1 a fl"])
         (simp add: payload_def heap_ok_def)
  next
    case (4 pre a z post s2)
    then show ?case
      by (intro exI[of _ a] exI[of _ "pre @ (a, - z) # post"] exI[of _ "remove1 a fl"])
         (simp add: payload_def heap_ok_def)
  qed
  then obtain a bs' fl' where a: "p = payload a" "heap_struct bs' fl' s'" "a \<in> fst ` set bs'"
    by blast
  from struct_aligned[OF a(2,3)] payload_not_null[OF struct_inb[OF a(2,3)]] rq a(1)
  show ?thesis by simp
qed

text \<open>For a request of at most \<open>2 ^ 63\<close> bytes on a well-formed heap, the fit search returns, and
  what it returns is \<open>NULL\<close> or a free block whose capacity is at least the request.\<close>

theorem search_fits_bounded:
  assumes ok: "heap_ok bs fl s" and r: "r \<noteq> 0" "unat r \<le> 2 ^ 63"
  shows "\<exists>b. searchFreeList s r = Some b
             \<and> (b = NULL \<or> (is_free s b \<and> unat r \<le> nat (- sint (info_size s b))))"
proof -
  from ok have hs: "heap_struct bs fl s" by (simp add: heap_ok_def)
  have rs: "r = sz (int (unat r))" by (simp add: sz_def)
  have "0 < unat r" using r(1) by (simp add: unat_gt_0)
  then have r0: "0 < int (unat r)" "int (unat r) \<le> 2 ^ 63"
    using int_unat_le[OF r(2)] by linarith+
  note se = search_struct[OF hs r0, folded rs]
  show ?thesis
  proof (cases "fit bs fl (int (unat r))")
    case None
    with se show ?thesis by simp
  next
    case (Some a)
    from fit_Some[OF Some heap_structD(7)[OF hs] layout_distinct[OF heap_structD(2)[OF hs]]]
    obtain z where z: "(a, z) \<in> set bs" "z \<le> - int (unat r)" by blast
    from struct_size[OF hs z(1)] have "sint (info_size s (ptr a)) = z" by simp
    moreover have "is_free s (ptr a)" using is_free_struct[OF hs z(1)] z(2) r0 by simp
    moreover have "unat r \<le> nat (- z)" using z(2) by linarith
    ultimately show ?thesis using se Some by simp
  qed
qed

text \<open>The last block of the chain is tried before the free list: when it is free and large
  enough, it is the block returned.\<close>

theorem search_tail_shortcut:
  assumes "malloc_list_tail s \<noteq> NULL" and "is_free s (malloc_list_tail s)"
    and "r \<noteq> 0" "unat r \<le> nat (- sint (info_size s (malloc_list_tail s)))"
  shows "searchFreeList s r = Some (malloc_list_tail s)"
proof -
  let ?z = "sint (info_size s (malloc_list_tail s))"
  have "- (2 ^ 63) \<le> ?z" using sint_ge[of "info_size s (malloc_list_tail s)"] by simp
  moreover have "?z < 0" using assms(2) by (simp add: is_free_def word_sless_alt)
  ultimately have u: "int (unat r) \<le> 2 ^ 63" "int (unat r) \<le> - ?z" using assms(4) by linarith+
  have "0 < unat r" using assms(3) by (simp add: unat_gt_0)
  then have "0 < int (unat r)" by linarith
  moreover have "- r = sz (- int (unat r))" by (simp add: sz_def)
  ultimately have "sint (- r) = - int (unat r)"
    using u(1) sint_sz[of "- int (unat r)"] by simp
  then have "info_size s (malloc_list_tail s) \<le>s - r" using u(2) by (simp add: word_sle_eq)
  then show ?thesis using assms(1) by (simp add: searchFreeList_def Let_def)
qed

subsection \<open>The consistency check on well-formed heaps\<close>

lemma layout_length: "layout a bs e \<Longrightarrow> a + 32 * length bs \<le> e"
proof (induction a bs e rule: layout.induct)
  case (1 a e)
  then show ?case by simp
next
  case (2 a b z bs e)
  have "16 \<le> \<bar>z\<bar>" using 2(2) by (auto dest: zdvd_imp_le [of 16 "\<bar>z\<bar>"])
  with 2 show ?case by auto
qed

lemma length_frees: "length (frees bs) \<le> length bs"
  by (simp add: frees_def)

lemma check_chain_suffix:
  assumes "heap_struct (pre @ post) fl s"
  shows "check_chain s (if post = [] then NULL else ptr (fst (hd post)))
           (ptr (last (0 # map fst pre))) fc msgs
         = Some (fc + of_nat (length (frees post)), msgs)"
  using assms
proof (induction post arbitrary: pre fc)
  case Nil
  then show ?case by (simp add: check_chain.simps)
next
  case (Cons k post)
  obtain b z where k: "k = (b, z)" by (cases k)
  have hs: "heap_struct (pre @ (b, z) # post) fl s" using Cons.prems k by simp
  note D = heap_structD[OF hs]
  note E = arena_end[OF D(1)]
  have ib: "inb b" using struct_inb[OF hs, of b] by simp
  have "b + 32 \<le> unat (mem_start s) + unat (heap_size s)"
    using layout_mem[OF D(2), of b z] by simp
  then have lt: "ptr b < mem_heap_lo s + heap_size s"
    unfolding heap_end_ptr using E ib by (simp add: inb_def)
  have nb: "next_block s (ptr b) = (if post = [] then NULL else ptr (fst (hd post)))"
    by (rule next_block_struct[OF hs])
  have pv: "info_prev s (ptr b) = ptr (last (0 # map fst pre))"
    using prev_facts(1)[OF hs] .
  have sz: "(info_size s (ptr b) \<le>s 0) = (z < 0)"
    using struct_size[OF hs, of b z] by (auto simp: word_sle_eq)
  have ih: "check_chain s (if post = [] then NULL else ptr (fst (hd post))) (ptr b) fc' msgs
         = Some (fc' + of_nat (length (frees post)), msgs)" for fc'
    using Cons.IH[of "pre @ [(b, z)]" fc'] hs by simp
  show ?case
    using ib lt by (subst check_chain.simps) (simp add: k nb pv sz ih NULL_def)
qed

lemma check_free_lseg:
  "lseg s p fl h NULL \<Longrightarrow> distinct (p # fl) \<Longrightarrow> (\<And>f. f \<in> set fl \<Longrightarrow> inb f) \<Longrightarrow>
   p = 0 \<or> inb p \<Longrightarrow> length fl \<le> unat fc \<Longrightarrow>
   check_free s h (ptr p) fc msgs = Some msgs"
proof (induction fl arbitrary: p h fc)
  case Nil
  then show ?case by (simp add: check_free.simps)
next
  case (Cons f fl)
  from Cons.prems(1) have h: "h = ptr f" and rest: "lseg s f fl (nextFree s h) NULL" by auto
  have inf: "inb f" using Cons.prems(3) by simp
  have hn: "h \<noteq> NULL" using inf by (simp add: h NULL_def)
  have fp: "ptr f \<noteq> ptr p"
    using Cons.prems(2,4) inf ptr_inj_inb[of f p] by (auto simp: inb_def)
  have fc0: "fc \<noteq> 0" using Cons.prems(5) by (auto simp: unat_eq_0)
  then have "unat (fc - 1) = unat fc - 1" by (simp add: unat_minus_one)
  then have len: "length fl \<le> unat (fc - 1)" using Cons.prems(5) by simp
  have ih: "check_free s (nextFree s h) (ptr f) (fc - 1) msgs = Some msgs"
    using Cons.IH[OF rest _ _ _ len] Cons.prems(2,3) inf by auto
  show ?case
    using hn fp fc0 ih by (subst check_free.simps) (simp add: h)
qed

text \<open>The program's own consistency check, \<open>check_heap\<close>, returns and reports nothing on
  every well-formed heap: the back links of the chain are right, the free list ends, and it has
  exactly as many members as there are blocks of negative stored size.\<close>

theorem check_heap_silent:
  assumes ok: "heap_ok bs fl s"
  shows "check_heap s = Some []"
proof -
  from ok have hs: "heap_struct bs fl s" and fr: "set fl = set (frees bs)"
    by (auto simp: heap_ok_def)
  note D = heap_structD[OF hs]
  note E = arena_end[OF D(1)]
  have dist: "distinct (map fst bs)" using layout_distinct[OF D(2)] .
  have "distinct (frees bs)" using dist by (simp add: frees_def distinct_map_filter)
  with fr D(6) have len: "length fl = length (frees bs)"
    by (metis distinct_card)
  have "length (frees bs) < 2 ^ 64"
    using layout_length[OF D(2)] length_frees[of bs] E by simp
  then have un: "unat (of_nat (length (frees bs)) :: 64 word) = length (frees bs)"
    by (simp add: of_nat_inverse)
  have start: "mem_heap_lo s = (if bs = [] then NULL else ptr (fst (hd bs))) \<or> bs = []"
  proof (cases bs)
    case Nil
    then show ?thesis by simp
  next
    case (Cons k bs')
    obtain b z where "k = (b, z)" by (cases k)
    with D(2) Cons show ?thesis by (simp add: mem_heap_lo_def)
  qed
  have c1: "check_chain s (mem_heap_lo s) NULL 0 [] = Some (of_nat (length (frees bs)), [])"
  proof (cases "bs = []")
    case True
    with D(2) have "unat (heap_size s) = 0" by simp
    then have "heap_size s = 0" by (simp add: unat_eq_0)
    then show ?thesis using True by (subst check_chain.simps) simp
  next
    case False
    with start check_chain_suffix[of "[]" bs fl s 0 "[]"] hs show ?thesis
      by (simp add: NULL_def)
  qed
  have c2: "check_free s (free_list_head s) NULL (of_nat (length (frees bs))) [] = Some []"
    using check_free_lseg[OF D(5), of "of_nat (length (frees bs))" "[]"] D(6)
      struct_fl_inb[OF hs] un len
    by (auto simp: NULL_def inb_def)
  show ?thesis by (simp add: check_heap_def c1 c2)
qed

section \<open>Witnesses on concrete heaps\<close>

lemmas inv_defs =
  heap_ok_def heap_struct_def arena_ok_def frees_def ptr_def sz_def
  info_size_def info_prev_def nextFree_def prevFree_def NULL_def

text \<open>The three heaps are reached by the calls that their description names.\<close>

lemma one_free_reached: "final_state [Init, Malloc 64, Free 4112] = Some one_free"
  by (simp add: one_free_def run_defs fun_eq_iff)

lemma two_blocks_reached: "final_state [Init, Malloc 64, Malloc 16, Free 4112] = Some two_blocks"
  by (simp add: two_blocks_def run_defs fun_eq_iff)

lemma three_blocks_reached:
  "final_state [Init, Malloc 64, Malloc 64, Malloc 64, Free 4112, Free 4272] = Some three_blocks"
  by (simp add: three_blocks_def run_defs fun_eq_iff)

lemma one_free_ok: "heap_ok [(4096, - 64)] [4096] one_free"
  by (simp add: one_free_def inv_defs)

lemma three_blocks_ok:
  "heap_ok [(4096, - 64), (4176, 64), (4256, - 64)] [4256, 4096] three_blocks"
  by (auto simp add: three_blocks_def inv_defs)

theorem C6_merged_size_witness:
  "heap_ok [(4096, - 64), (4176, 64), (4256, - 64)] [4256, 4096] three_blocks
   \<and> (4176, 64) \<in> set [(4096, - 64), (4176, 64), (4256, - 64 :: int)]
   \<and> (0 :: int) < 64
   \<and> sint (info_size (mm_free three_blocks 4192) 4096) = - 224"
proof -
  have h2: "(4176, 64) \<in> set [(4096, - 64), (4176, 64), (4256, - 64 :: int)]" by simp
  have h3: "(0 :: int) < 64" by simp
  have "sint (info_size (mm_free three_blocks 4192) 4096) = - 224"
    using C6_merged_size [OF three_blocks_ok h2 h3]
    by (simp add: three_blocks_def ptr_def next_block_def mem_heap_lo_def info_size_def
          info_prev_def set_size_def sizeof_BlockInfo_def NULL_def Let_def
          word_sle_eq word_sless_alt)
  with three_blocks_ok h2 h3 show ?thesis by blast
qed

lemma one_free_list: "free_list one_free = Some [4096]"
  by (simp add: one_free_def free_list_def free_list_from.simps nextFree_def NULL_def)

lemma two_blocks_ok: "heap_ok [(4096, - 64), (4176, 16)] [4096] two_blocks"
  by (simp add: two_blocks_def inv_defs)

lemma two_blocks_list: "free_list two_blocks = Some [4096]"
  by (simp add: two_blocks_def free_list_def free_list_from.simps nextFree_def NULL_def)

theorem C4_split_witness:
  "heap_ok [(4096, - 64), (4176, 16)] [4096] two_blocks
   \<and> (16 :: 64 word) \<noteq> 0
   \<and> searchFreeList two_blocks (round_request 16) = Some 4096
   \<and> (4096 :: addr) \<noteq> NULL
   \<and> info_size two_blocks 4096 <s 0
   \<and> 16 * ((unat (16 :: 64 word) + 15) div 16) + 16 < nat (- sint (info_size two_blocks 4096))
   \<and> mm_malloc two_blocks 16 = Some (Inr (4112, snd (malloc_split two_blocks 4096 16)))
   \<and> info_size (snd (malloc_split two_blocks 4096 16)) 4096 = 16
   \<and> info_size (snd (malloc_split two_blocks 4096 16)) 4128 = - 32
   \<and> info_prev (snd (malloc_split two_blocks 4096 16)) 4128 = 4096
   \<and> free_list (snd (malloc_split two_blocks 4096 16)) = Some [4128]
   \<and> chain_succ [(4096, - 64), (4176, 16)] 4096 = Some 4176
   \<and> info_prev two_blocks 4176 = 4096
   \<and> info_prev (snd (malloc_split two_blocks 4096 16)) 4176 = 4128
   \<and> next_block two_blocks 4096 = 4176
   \<and> heap_ok [(4096, - 64)] [4096] one_free
   \<and> searchFreeList one_free (round_request 16) = Some 4096
   \<and> info_size one_free 4096 <s 0
   \<and> 16 * ((unat (16 :: 64 word) + 15) div 16) + 16 < nat (- sint (info_size one_free 4096))
   \<and> mm_malloc one_free 16 = Some (Inr (4112, snd (malloc_split one_free 4096 16)))
   \<and> chain_succ [(4096, - 64)] 4096 = None
   \<and> malloc_list_tail (snd (malloc_split one_free 4096 16)) = 4128
   \<and> next_block one_free 4096 = NULL"
proof -
  have h2: "(16 :: 64 word) \<noteq> 0" by simp
  have h3: "searchFreeList two_blocks (round_request 16) = Some 4096"
    by (simp add: two_blocks_def searchFreeList_def searchFreeList_loop.simps round_request_def
          ALIGNMENT_def Let_def info_size_def NULL_def word_sle_eq)
  have h4: "(4096 :: addr) \<noteq> NULL" by (simp add: NULL_def)
  have h5: "info_size two_blocks 4096 <s 0"
    by (simp add: two_blocks_def info_size_def word_sless_alt)
  have h6: "16 * ((unat (16 :: 64 word) + 15) div 16) + 16 < nat (- sint (info_size two_blocks 4096))"
    by (simp add: two_blocks_def info_size_def)
  have g3: "searchFreeList one_free (round_request 16) = Some 4096"
    by (simp add: one_free_def searchFreeList_def round_request_def ALIGNMENT_def Let_def
          info_size_def NULL_def word_sle_eq)
  have g5: "info_size one_free 4096 <s 0"
    by (simp add: one_free_def info_size_def word_sless_alt)
  have g6: "16 * ((unat (16 :: 64 word) + 15) div 16) + 16 < nat (- sint (info_size one_free 4096))"
    by (simp add: one_free_def info_size_def)
  have rr: "round_request 16 = 16" by (simp add: round_request_def ALIGNMENT_def)
  have sz2: "info_size two_blocks 4096 = - 64" by (simp add: two_blocks_def info_size_def)
  have sz1: "info_size one_free 4096 = - 64" by (simp add: one_free_def info_size_def)
  from C4_split [OF two_blocks_ok h2 h3 h4 h5 h6]
  have two: "mm_malloc two_blocks 16 = Some (Inr (4112, snd (malloc_split two_blocks 4096 16)))
   \<and> info_size (snd (malloc_split two_blocks 4096 16)) 4096 = 16
   \<and> info_size (snd (malloc_split two_blocks 4096 16)) 4128 = - 32
   \<and> info_prev (snd (malloc_split two_blocks 4096 16)) 4128 = 4096
   \<and> free_list (snd (malloc_split two_blocks 4096 16)) = Some [4128]
   \<and> chain_succ [(4096, - 64), (4176, 16)] 4096 = Some 4176
   \<and> info_prev two_blocks 4176 = 4096
   \<and> info_prev (snd (malloc_split two_blocks 4096 16)) 4176 = 4128
   \<and> next_block two_blocks 4096 = 4176"
    by (simp add: Let_def rr sz2 two_blocks_list sizeof_BlockInfo_def ptr_def)
  from C4_split [OF one_free_ok h2 g3 h4 g5 g6]
  have one: "mm_malloc one_free 16 = Some (Inr (4112, snd (malloc_split one_free 4096 16)))
   \<and> chain_succ [(4096, - 64)] 4096 = None
   \<and> malloc_list_tail (snd (malloc_split one_free 4096 16)) = 4128
   \<and> next_block one_free 4096 = NULL"
    by (simp add: Let_def rr sz1 one_free_list sizeof_BlockInfo_def ptr_def)
  from two one two_blocks_ok one_free_ok h2 h3 h4 h5 h6 g3 g5 g6 show ?thesis by blast
qed

end
